theory Spec2Isabelle
  imports Main "HOL-Library.Log_Nat"
begin

section \<open>JavaScript numbers\<close>

text \<open>
  Every value the engine of \<^verbatim>\<open>src/app.js\<close> computes with is a JavaScript Number, an
  IEEE 754 binary64 value.  A number is modelled by its kind: not-a-number, the two
  infinities, negative zero, or a finite value \<open>Num q\<close> carrying the exact rational it
  denotes (\<open>Num 0\<close> is positive zero).  Arithmetic computes the exact rational result and
  rounds it to the nearest binary64 value, ties to even, as ECMAScript prescribes for
  \<^verbatim>\<open>+\<close>, \<^verbatim>\<open>-\<close>, \<^verbatim>\<open>*\<close> and \<^verbatim>\<open>/\<close>.
\<close>

datatype jsnum = NaN | PosInf | NegInf | NegZero | Num rat

subsection \<open>Rounding to binary64\<close>

text \<open>Round a rational to an integer, halves to the even neighbour.\<close>

definition rhe :: "rat \<Rightarrow> int" where
  "rhe x = (let f = \<lfloor>x\<rfloor>; d = x - of_int f in
     if d < 1 / 2 then f else if 1 / 2 < d then f + 1 else if even f then f else f + 1)"

text \<open>
  The binary exponent of a positive rational \<open>a\<close>: the integer \<open>e\<close> with
  \<open>2\<^sup>e \<le> a < 2\<^sup>e\<^sup>+\<^sup>1\<close>, read off the bit length of the integer part of \<open>a\<close> or of \<open>1 / a\<close>.
\<close>

definition expo :: "rat \<Rightarrow> int" where
  "expo a = (if 1 \<le> a then bitlen \<lfloor>a\<rfloor> - 1 else - bitlen (\<lceil>1 / a\<rceil> - 1))"

text \<open>
  The distance between neighbouring binary64 numbers around the magnitude \<open>a\<close>: 53
  significant bits, and no finer than \<open>2\<^sup>-\<^sup>1\<^sup>0\<^sup>7\<^sup>4\<close> (subnormal numbers).
\<close>

definition spacing :: "rat \<Rightarrow> rat" where
  "spacing a = 2 powi (max (expo a) (- 1022) - 52)"

text \<open>The magnitude \<open>a > 0\<close> rounded to the nearest multiple of its spacing.\<close>

definition rnd_mag :: "rat \<Rightarrow> rat" where
  "rnd_mag a = spacing a * of_int (rhe (a / spacing a))"

text \<open>
  The binary64 value of an exact result \<open>q\<close>: a rounded magnitude of \<open>2\<^sup>1\<^sup>0\<^sup>2\<^sup>4\<close> or more
  overflows to an infinity, one of zero gives a zero of the sign of \<open>q\<close>; an exact zero is
  positive zero.
\<close>

definition rnd :: "rat \<Rightarrow> jsnum" where
  "rnd q = (if q = 0 then Num 0 else
     let r = rnd_mag \<bar>q\<bar> in
     if 2 ^ 1024 \<le> r then (if 0 < q then PosInf else NegInf)
     else if r = 0 then (if 0 < q then Num 0 else NegZero)
     else Num (if 0 < q then r else - r))"

text \<open>A finite value is a binary64 number when rounding leaves it unchanged.\<close>

fun is_double :: "jsnum \<Rightarrow> bool" where
  "is_double (Num q) = (rnd q = Num q)"
| "is_double _ = True"

subsection \<open>Operations\<close>

fun isFinite :: "jsnum \<Rightarrow> bool" where
  "isFinite (Num q) = True"
| "isFinite NegZero = True"
| "isFinite _ = False"

text \<open>The rational denoted by a finite number (both zeros denote 0).\<close>

fun val :: "jsnum \<Rightarrow> rat" where
  "val (Num q) = q"
| "val _ = 0"

fun negative :: "jsnum \<Rightarrow> bool" where
  "negative (Num q) = (q < 0)"
| "negative NegZero = True"
| "negative NegInf = True"
| "negative _ = False"

definition zero_of :: "bool \<Rightarrow> jsnum" where
  "zero_of neg = (if neg then NegZero else Num 0)"

definition inf_of :: "bool \<Rightarrow> jsnum" where
  "inf_of neg = (if neg then NegInf else PosInf)"

instantiation jsnum :: "{zero, one, plus, uminus, minus, times, inverse, abs, ord}"
begin

definition zero_jsnum :: jsnum where
  "zero_jsnum = Num 0"

definition one_jsnum :: jsnum where
  "one_jsnum = Num 1"

fun uminus_jsnum :: "jsnum \<Rightarrow> jsnum" where
  "uminus_jsnum NaN = NaN"
| "uminus_jsnum PosInf = NegInf"
| "uminus_jsnum NegInf = PosInf"
| "uminus_jsnum NegZero = Num 0"
| "uminus_jsnum (Num q) = (if q = 0 then NegZero else Num (- q))"

fun plus_jsnum :: "jsnum \<Rightarrow> jsnum \<Rightarrow> jsnum" where
  "plus_jsnum NaN y = NaN"
| "plus_jsnum x NaN = NaN"
| "plus_jsnum PosInf NegInf = NaN"
| "plus_jsnum NegInf PosInf = NaN"
| "plus_jsnum PosInf y = PosInf"
| "plus_jsnum x PosInf = PosInf"
| "plus_jsnum NegInf y = NegInf"
| "plus_jsnum x NegInf = NegInf"
| "plus_jsnum NegZero NegZero = NegZero"
| "plus_jsnum x y = rnd (val x + val y)"

definition minus_jsnum :: "jsnum \<Rightarrow> jsnum \<Rightarrow> jsnum" where
  "minus_jsnum x y = x + (- y)"

definition times_jsnum :: "jsnum \<Rightarrow> jsnum \<Rightarrow> jsnum" where
  "times_jsnum x y =
     (if x = NaN \<or> y = NaN then NaN
      else let neg = (negative x \<noteq> negative y) in
        if isFinite x \<and> isFinite y then
          (if val x * val y = 0 then zero_of neg else rnd (val x * val y))
        else if (isFinite x \<and> val x = 0) \<or> (isFinite y \<and> val y = 0) then NaN
        else inf_of neg)"

definition divide_jsnum :: "jsnum \<Rightarrow> jsnum \<Rightarrow> jsnum" where
  "divide_jsnum x y =
     (if x = NaN \<or> y = NaN then NaN
      else let neg = (negative x \<noteq> negative y) in
        if isFinite x then
          (if isFinite y then
             (if val y = 0 then (if val x = 0 then NaN else inf_of neg)
              else if val x = 0 then zero_of neg
              else rnd (val x / val y))
           else zero_of neg)
        else if isFinite y then inf_of neg else NaN)"

definition inverse_jsnum :: "jsnum \<Rightarrow> jsnum" where
  "inverse_jsnum x = divide (Num 1) x"

fun abs_jsnum :: "jsnum \<Rightarrow> jsnum" where
  "abs_jsnum NaN = NaN"
| "abs_jsnum PosInf = PosInf"
| "abs_jsnum NegInf = PosInf"
| "abs_jsnum NegZero = Num 0"
| "abs_jsnum (Num q) = Num \<bar>q\<bar>"

text \<open>The comparisons \<^verbatim>\<open><\<close> and \<^verbatim>\<open><=\<close>: false as soon as an operand is NaN.\<close>

fun less_jsnum :: "jsnum \<Rightarrow> jsnum \<Rightarrow> bool" where
  "less_jsnum NaN y = False"
| "less_jsnum x NaN = False"
| "less_jsnum x NegInf = False"
| "less_jsnum NegInf y = True"
| "less_jsnum PosInf y = False"
| "less_jsnum x PosInf = True"
| "less_jsnum x y = (val x < val y)"

fun less_eq_jsnum :: "jsnum \<Rightarrow> jsnum \<Rightarrow> bool" where
  "less_eq_jsnum NaN y = False"
| "less_eq_jsnum x NaN = False"
| "less_eq_jsnum NegInf y = True"
| "less_eq_jsnum x NegInf = False"
| "less_eq_jsnum x PosInf = True"
| "less_eq_jsnum PosInf y = False"
| "less_eq_jsnum x y = (val x \<le> val y)"

instance ..

end

text \<open>Strict equality \<^verbatim>\<open>===\<close> on numbers: NaN equals nothing, the two zeros are equal.\<close>

fun strict_eq :: "jsnum \<Rightarrow> jsnum \<Rightarrow> bool" where
  "strict_eq NaN y = False"
| "strict_eq x NaN = False"
| "strict_eq PosInf y = (y = PosInf)"
| "strict_eq NegInf y = (y = NegInf)"
| "strict_eq x PosInf = False"
| "strict_eq x NegInf = False"
| "strict_eq x y = (val x = val y)"

subsection \<open>The JavaScript engine\<close>

text \<open>
  Two things the source leaves to the JavaScript engine that runs it.  The first is
  \<^verbatim>\<open>Math.pow(x, t)\<close>, which the code calls with the loop index \<open>t = 0, 1, 2, \<dots>\<close> as exponent:
  ECMAScript fixes the result 1 for the exponent 0 and asks, for a finite non-zero base,
  only for an approximation of the power, and engines differ in its last bits.  The
  second is the number of elements an array can hold: never more than \<open>2\<^sup>3\<^sup>2 - 1\<close>, and fewer
  where the engine says so; \<^verbatim>\<open>push\<close> on a full array throws \<^verbatim>\<open>RangeError\<close>.

  An engine is a power function with a capacity that have what all engines share: a power
  with exponent 0 is 1, a power with exponent 1 is the base, every power of 1 is 1, and a
  power of a positive base is neither NaN nor negative.
\<close>

typedef engine = "{(p :: jsnum \<Rightarrow> nat \<Rightarrow> jsnum, c :: nat).
    (\<forall>x. p x 0 = Num 1) \<and>
    (\<forall>x. is_double x \<longrightarrow> p x 1 = x) \<and>
    (\<forall>t. p (Num 1) t = Num 1) \<and>
    (\<forall>y t. 0 < y \<longrightarrow> p (Num y) t \<noteq> NaN \<and> \<not> negative (p (Num y) t)) \<and>
    c \<le> 4294967295}"
  by (rule exI[of _ "(\<lambda>x t. if t = 0 then Num 1 else x, 0)"]) simp

definition Math_pow :: "engine \<Rightarrow> jsnum \<Rightarrow> nat \<Rightarrow> jsnum" where
  "Math_pow E = fst (Rep_engine E)"

definition capacity :: "engine \<Rightarrow> nat" where
  "capacity E = snd (Rep_engine E)"

text \<open>
  One engine, for the examples: its \<^verbatim>\<open>Math.pow\<close> is the correctly rounded power, with
  the results ECMAScript fixes for the special bases, and its arrays hold \<open>2\<^sup>3\<^sup>2 - 1\<close>
  elements.
\<close>

fun pow_rounded :: "jsnum \<Rightarrow> nat \<Rightarrow> jsnum" where
  "pow_rounded x 0 = Num 1"
| "pow_rounded NaN t = NaN"
| "pow_rounded PosInf t = PosInf"
| "pow_rounded NegInf t = (if odd t then NegInf else PosInf)"
| "pow_rounded NegZero t = (if odd t then NegZero else Num 0)"
| "pow_rounded (Num q) t = (if q = 0 then Num 0 else rnd (q ^ t))"

definition reference_engine :: engine where
  "reference_engine = Abs_engine (pow_rounded, 4294967295)"

text \<open>
  \<^verbatim>\<open>xs.push(x)\<close>: the array with \<open>x\<close> appended, or \<^verbatim>\<open>RangeError\<close> when the array is full.
\<close>

datatype error = RangeError

definition Array_push :: "engine \<Rightarrow> jsnum list \<Rightarrow> jsnum \<Rightarrow> error + jsnum list" where
  "Array_push E xs x = (if length xs < capacity E then Inr (xs @ [x]) else Inl RangeError)"

section \<open>The finance engine of \<^verbatim>\<open>src/app.js\<close>\<close>

subsection \<open>\<^verbatim>\<open>npv\<close> and \<^verbatim>\<open>discountedCashflows\<close>\<close>

text \<open>
  \<^verbatim>\<open>let s = 0; for (let t=0; t<cashflows.length; t++) s += cashflows[t] / Math.pow(1 + rate, t);\<close>
  The loop is a recursion on the index \<open>t\<close> and the running sum \<open>s\<close>.
\<close>

function npv_loop :: "engine \<Rightarrow> jsnum \<Rightarrow> jsnum list \<Rightarrow> nat \<Rightarrow> jsnum \<Rightarrow> jsnum" where
  "npv_loop E rate cashflows t s =
     (if t < length cashflows
      then npv_loop E rate cashflows (t + 1) (s + cashflows ! t / Math_pow E (1 + rate) t)
      else s)"
  by pat_completeness auto
termination
  by (relation "measure (\<lambda>(E, rate, cashflows, t, s). length cashflows - t)") auto

declare npv_loop.simps [simp del]

definition npv :: "engine \<Rightarrow> jsnum \<Rightarrow> jsnum list \<Rightarrow> jsnum" where
  "npv E rate cashflows = npv_loop E rate cashflows 0 0"

text \<open>\<^verbatim>\<open>cashflows.map((cf, t) => cf / Math.pow(1 + rate, t))\<close>\<close>

definition discountedCashflows :: "engine \<Rightarrow> jsnum \<Rightarrow> jsnum list \<Rightarrow> jsnum list" where
  "discountedCashflows E rate cashflows =
     map (\<lambda>(cf, t). cf / Math_pow E (1 + rate) t) (zip cashflows [0..<length cashflows])"

subsection \<open>\<^verbatim>\<open>irr\<close>\<close>

text \<open>
  The three kinds of \<^verbatim>\<open>return\<close> statement of \<^verbatim>\<open>irr\<close>: \<^verbatim>\<open>return NaN\<close>, the return of a
  rate at which the net present value passed a test (\<^verbatim>\<open>lo\<close>, \<^verbatim>\<open>hi\<close> or \<^verbatim>\<open>mid\<close>), and the
  \<^verbatim>\<open>return (lo + hi) / 2\<close> that follows the loop.  The caller receives the number only.
\<close>

datatype ret = Return_NaN | Return_root jsnum | Return_after_loop jsnum

fun returned :: "ret \<Rightarrow> jsnum" where
  "returned Return_NaN = NaN"
| "returned (Return_root r) = r"
| "returned (Return_after_loop r) = r"

text \<open>The bisection loop, \<^verbatim>\<open>for (let i=0; i<120; i++)\<close>, on its variables.\<close>

function irr_loop ::
  "(jsnum \<Rightarrow> jsnum) \<Rightarrow> nat \<Rightarrow> jsnum \<Rightarrow> jsnum \<Rightarrow> jsnum \<Rightarrow> jsnum \<Rightarrow> ret" where
  "irr_loop f i lo hi flo fhi =
     (if i < 120 then
        (let mid = (lo + hi) / Num 2;
             fmid = f mid in
         if \<not> isFinite fmid then Return_NaN
         else if \<bar>fmid\<bar> < rnd (1 / 10 ^ 8) then Return_root mid
         else if flo * fmid \<le> 0 then irr_loop f (i + 1) lo mid flo fmid
         else irr_loop f (i + 1) mid hi fmid fhi)
      else Return_after_loop ((lo + hi) / Num 2))"
  by pat_completeness auto
termination
  by (relation "measure (\<lambda>(f, i, lo, hi, flo, fhi). 120 - i)") auto

declare irr_loop.simps [simp del]

definition irr_ret :: "engine \<Rightarrow> jsnum list \<Rightarrow> ret" where
  "irr_ret E cashflows =
     (let f = (\<lambda>r. npv E r cashflows);
          lo = - rnd (9999 / 10000);
          hi = Num 10;
          flo = f lo;
          fhi = f hi in
      if \<not> isFinite flo \<or> \<not> isFinite fhi then Return_NaN
      else if strict_eq flo 0 then Return_root lo
      else if strict_eq fhi 0 then Return_root hi
      else if 0 < flo * fhi then
        (let hi = Num 50;
             fhi = f hi in
         if \<not> isFinite fhi \<or> 0 < flo * fhi then Return_NaN
         else irr_loop f 0 lo hi flo fhi)
      else irr_loop f 0 lo hi flo fhi)"

definition irr :: "engine \<Rightarrow> jsnum list \<Rightarrow> jsnum" where
  "irr E cashflows = returned (irr_ret E cashflows)"

subsection \<open>\<^verbatim>\<open>paybackPeriod\<close>\<close>

text \<open>
  The loop of \<^verbatim>\<open>paybackPeriod\<close> on the index \<open>t\<close> and the running total \<open>cum\<close>.  The index
  is a small integer, exact as a number, so \<^verbatim>\<open>t - 1\<close> is \<open>Num (of_nat (t - 1))\<close>.
\<close>

function paybackPeriod_loop :: "jsnum list \<Rightarrow> nat \<Rightarrow> jsnum \<Rightarrow> jsnum" where
  "paybackPeriod_loop cashflows t cum =
     (if t < length cashflows then
        (let prev = cum;
             cum = cum + cashflows ! t in
         if 0 \<le> cum then
           (let cf = cashflows ! t in
            if t = 0 then 0
            else (let frac = (0 - prev) / cf in Num (of_nat (t - 1)) + frac))
         else paybackPeriod_loop cashflows (t + 1) cum)
      else NaN)"
  by pat_completeness auto
termination
  by (relation "measure (\<lambda>(cashflows, t, cum). length cashflows - t)") auto

declare paybackPeriod_loop.simps [simp del]

definition paybackPeriod :: "jsnum list \<Rightarrow> jsnum" where
  "paybackPeriod cashflows =
     (let cum = 0 in
      if length cashflows = 0 then NaN
      else if 0 \<le> cashflows ! 0 then 0
      else paybackPeriod_loop cashflows 0 cum)"

subsection \<open>\<^verbatim>\<open>buildCashflows\<close>\<close>

record params =
  capGeo :: jsnum
  capInd :: jsnum
  capPv :: jsnum
  benefitTax :: jsnum
  benefitEnergy :: jsnum
  years :: jsnum

text \<open>
  \<^verbatim>\<open>for (let t=1; t<=years; t++) cfs.push(benefitEnergy);\<close>
  The counter \<open>t\<close> is the JavaScript number the code increments and compares with
  \<^verbatim>\<open>years\<close>.  Nothing bounds \<^verbatim>\<open>years\<close>; what ends the loop when its test keeps holding is
  \<^verbatim>\<open>push\<close>, which throws once the array is full.
\<close>

function buildCashflows_loop ::
  "engine \<Rightarrow> jsnum \<Rightarrow> jsnum \<Rightarrow> jsnum \<Rightarrow> jsnum list \<Rightarrow> error + jsnum list" where
  "buildCashflows_loop E years_v benefitEnergy_v t cfs =
     (if t \<le> years_v then
        (case Array_push E cfs benefitEnergy_v of
           Inl e \<Rightarrow> Inl e
         | Inr cfs \<Rightarrow> buildCashflows_loop E years_v benefitEnergy_v (t + 1) cfs)
      else Inr cfs)"
  by pat_completeness auto
termination
  by (relation "measure (\<lambda>(E, years_v, benefitEnergy_v, t, cfs). capacity E - length cfs)")
    (auto simp add: Array_push_def split: if_splits)

declare buildCashflows_loop.simps [simp del]

definition buildCashflows :: "engine \<Rightarrow> params \<Rightarrow> error + jsnum list" where
  "buildCashflows E p =
     (let capex = capGeo p + capInd p + capPv p;
          cfs = [] in
      case Array_push E cfs (- capex + benefitTax p) of
        Inl e \<Rightarrow> Inl e
      | Inr cfs \<Rightarrow> buildCashflows_loop E (years p) (benefitEnergy p) 1 cfs)"

section \<open>The loops with their counters as numbers\<close>

text \<open>
  The loops of \<^verbatim>\<open>npv\<close>, \<^verbatim>\<open>discountedCashflows\<close>, \<^verbatim>\<open>irr\<close> and \<^verbatim>\<open>paybackPeriod\<close> once more, with
  nothing taken for granted: the counter is the JavaScript number the code increments
  and compares, an element is read at the index the counter denotes, and a run that does
  not end has no value (\<open>None\<close>).  That these runs end, with the values of the functions
  above, is proved further down for every series an array of the engine can hold.
\<close>

definition index :: "jsnum \<Rightarrow> nat" where
  "index t = nat \<lfloor>val t\<rfloor>"

partial_function (option) run_npv_loop ::
  "engine \<Rightarrow> jsnum \<Rightarrow> jsnum list \<Rightarrow> jsnum \<Rightarrow> jsnum \<Rightarrow> jsnum option" where
  "run_npv_loop E rate cashflows t s =
     (if t < Num (of_nat (length cashflows))
      then run_npv_loop E rate cashflows (t + 1)
             (s + cashflows ! index t / Math_pow E (1 + rate) (index t))
      else Some s)"

definition run_npv :: "engine \<Rightarrow> jsnum \<Rightarrow> jsnum list \<Rightarrow> jsnum option" where
  "run_npv E rate cashflows = run_npv_loop E rate cashflows 0 0"

text \<open>
  \<^verbatim>\<open>Array.prototype.map\<close>: the callback is applied to each element and its index, in
  order, and the results are collected in a new array of the same length.
\<close>

partial_function (option) Array_map ::
  "(jsnum \<Rightarrow> jsnum \<Rightarrow> jsnum) \<Rightarrow> jsnum list \<Rightarrow> jsnum \<Rightarrow> jsnum list \<Rightarrow> jsnum list option" where
  "Array_map callback xs k out =
     (if k < Num (of_nat (length xs))
      then Array_map callback xs (k + 1) (out @ [callback (xs ! index k) k])
      else Some out)"

definition run_discountedCashflows :: "engine \<Rightarrow> jsnum \<Rightarrow> jsnum list \<Rightarrow> jsnum list option" where
  "run_discountedCashflows E rate cashflows =
     Array_map (\<lambda>cf t. cf / Math_pow E (1 + rate) (index t)) cashflows 0 []"

partial_function (option) run_irr_loop ::
  "(jsnum \<Rightarrow> jsnum option) \<Rightarrow> jsnum \<Rightarrow> jsnum \<Rightarrow> jsnum \<Rightarrow> jsnum \<Rightarrow> jsnum \<Rightarrow> jsnum option" where
  "run_irr_loop f i lo hi flo fhi =
     (if i < Num 120 then
        (let mid = (lo + hi) / Num 2 in
         Option.bind (f mid) (\<lambda>fmid.
           if \<not> isFinite fmid then Some NaN
           else if \<bar>fmid\<bar> < rnd (1 / 10 ^ 8) then Some mid
           else if flo * fmid \<le> 0 then run_irr_loop f (i + 1) lo mid flo fmid
           else run_irr_loop f (i + 1) mid hi fmid fhi))
      else Some ((lo + hi) / Num 2))"

definition run_irr :: "engine \<Rightarrow> jsnum list \<Rightarrow> jsnum option" where
  "run_irr E cashflows =
     (let f = (\<lambda>r. run_npv E r cashflows);
          lo = - rnd (9999 / 10000);
          hi = Num 10 in
      Option.bind (f lo) (\<lambda>flo. Option.bind (f hi) (\<lambda>fhi.
        if \<not> isFinite flo \<or> \<not> isFinite fhi then Some NaN
        else if strict_eq flo 0 then Some lo
        else if strict_eq fhi 0 then Some hi
        else if 0 < flo * fhi then
          (let hi = Num 50 in
           Option.bind (f hi) (\<lambda>fhi.
             if \<not> isFinite fhi \<or> 0 < flo * fhi then Some NaN
             else run_irr_loop f 0 lo hi flo fhi))
        else run_irr_loop f 0 lo hi flo fhi)))"

partial_function (option) run_paybackPeriod_loop ::
  "jsnum list \<Rightarrow> jsnum \<Rightarrow> jsnum \<Rightarrow> jsnum option" where
  "run_paybackPeriod_loop cashflows t cum =
     (if t < Num (of_nat (length cashflows)) then
        (let prev = cum;
             cum = cum + cashflows ! index t in
         if 0 \<le> cum then
           (let cf = cashflows ! index t in
            if strict_eq t 0 then Some 0
            else (let frac = (0 - prev) / cf in Some ((t - 1) + frac)))
         else run_paybackPeriod_loop cashflows (t + 1) cum)
      else Some NaN)"

definition run_paybackPeriod :: "jsnum list \<Rightarrow> jsnum option" where
  "run_paybackPeriod cashflows =
     (let cum = 0 in
      if strict_eq (Num (of_nat (length cashflows))) 0 then Some NaN
      else if 0 \<le> cashflows ! 0 then Some 0
      else run_paybackPeriod_loop cashflows 0 cum)"

section \<open>The reference algorithms of the specification\<close>

subsection \<open>The bisection procedure\<close>

text \<open>
  The root finder as the specification words it, in six steps, on a bracket with the
  values of \<open>f\<close> at its ends.  ``No solution'' is the non-numeric sentinel \<open>NaN\<close>.
\<close>

record bracket =
  lower :: jsnum
  upper :: jsnum
  f_lower :: jsnum
  f_upper :: jsnum

definition midpoint :: "bracket \<Rightarrow> jsnum" where
  "midpoint b = (lower b + upper b) / Num 2"

text \<open>
  Step 5, one iteration: the midpoint and \<open>f\<close> there; fail when it is not finite,
  converge when it is below the tolerance, otherwise narrow the bracket by the sign of
  \<open>f(lo) \<cdot> f(mid)\<close>.  \<open>Inl\<close> ends the search with its answer, \<open>Inr\<close> is the narrowed bracket.
\<close>

definition bisect_step :: "(jsnum \<Rightarrow> jsnum) \<Rightarrow> bracket \<Rightarrow> jsnum + bracket" where
  "bisect_step f b =
     (if \<not> isFinite (f (midpoint b)) then Inl NaN
      else if \<bar>f (midpoint b)\<bar> < rnd (1 / 10 ^ 8) then Inl (midpoint b)
      else if f_lower b * f (midpoint b) \<le> 0
        then Inr (b\<lparr>upper := midpoint b, f_upper := f (midpoint b)\<rparr>)
        else Inr (b\<lparr>lower := midpoint b, f_lower := f (midpoint b)\<rparr>))"

text \<open>Steps 5 and 6: at most \<open>n\<close> iterations, then the midpoint of the final bracket.\<close>

fun bisect :: "(jsnum \<Rightarrow> jsnum) \<Rightarrow> nat \<Rightarrow> bracket \<Rightarrow> jsnum" where
  "bisect f 0 b = midpoint b"
| "bisect f (Suc n) b = (case bisect_step f b of Inl r \<Rightarrow> r | Inr b' \<Rightarrow> bisect f n b')"

text \<open>
  Step 4: when \<open>f(lo)\<close> and \<open>f(hi)\<close> have the same sign, one expansion of the bracket to
  \<open>hi = 50\<close>, which fails when the new \<open>f(hi)\<close> is not finite or still of the same sign.
\<close>

definition expand :: "(jsnum \<Rightarrow> jsnum) \<Rightarrow> bracket \<Rightarrow> bracket option" where
  "expand f b =
     (if 0 < f_lower b * f_upper b then
        (if \<not> isFinite (f (Num 50)) \<or> 0 < f_lower b * f (Num 50) then None
         else Some (b\<lparr>upper := Num 50, f_upper := f (Num 50)\<rparr>))
      else Some b)"

text \<open>Steps 1 to 3, then the expansion and 120 iterations.\<close>

definition irr_ref :: "engine \<Rightarrow> jsnum list \<Rightarrow> jsnum" where
  "irr_ref E series =
     (let f = (\<lambda>r. npv E r series);
          b = \<lparr>lower = - rnd (9999 / 10000), upper = Num 10,
               f_lower = f (- rnd (9999 / 10000)), f_upper = f (Num 10)\<rparr> in
      if \<not> isFinite (f_lower b) \<or> \<not> isFinite (f_upper b) then NaN
      else if strict_eq (f_lower b) 0 then lower b
      else if strict_eq (f_upper b) 0 then upper b
      else (case expand f b of None \<Rightarrow> NaN | Some b' \<Rightarrow> bisect f 120 b'))"

subsection \<open>The payback period\<close>

text \<open>The running cumulative total after period \<open>t\<close>, the sum of the series up to \<open>t\<close>.\<close>

definition cumulative :: "jsnum list \<Rightarrow> nat \<Rightarrow> jsnum" where
  "cumulative series t = foldl (+) 0 (take (t + 1) series)"

text \<open>The first period \<open>t \<ge> 1\<close> at which the cumulative total is \<open>\<ge> 0\<close>, if there is one.\<close>

definition first_recovery :: "jsnum list \<Rightarrow> nat option" where
  "first_recovery series = find (\<lambda>t. 0 \<le> cumulative series t) [1..<length series]"

text \<open>The fractional position within period \<open>t\<close>: \<open>(0 - prev) / cf\<^sub>t\<close>.\<close>

definition fraction :: "jsnum list \<Rightarrow> nat \<Rightarrow> jsnum" where
  "fraction series t = (0 - cumulative series (t - 1)) / series ! t"

definition payback_ref :: "jsnum list \<Rightarrow> jsnum" where
  "payback_ref series =
     (if series = [] then NaN
      else if 0 \<le> series ! 0 then 0
      else (case first_recovery series of
              None \<Rightarrow> NaN
            | Some t \<Rightarrow> Num (of_nat (t - 1)) + fraction series t))"

subsection \<open>The widest bracket\<close>

text \<open>
  A finite number between the literal \<^verbatim>\<open>-0.9999\<close>, which denotes the binary64 number
  \<open>-4503149267407759 / 2\<^sup>5\<^sup>2\<close>, and 50.
\<close>

definition in_range :: "jsnum \<Rightarrow> bool" where
  "in_range x \<longleftrightarrow>
     isFinite x \<and> - (4503149267407759 / 4503599627370496) \<le> val x \<and> val x \<le> 50"

subsection \<open>Sums of non-negative terms\<close>

text \<open>
  A number that is NaN, \<open>+\<infinity>\<close>, a zero or a positive finite number: what a non-negative
  cash flow divided by a power of a positive base can be.
\<close>

definition nonneg_or_nan :: "jsnum \<Rightarrow> bool" where
  "nonneg_or_nan x = (case x of NegInf \<Rightarrow> False | Num a \<Rightarrow> 0 \<le> a | _ \<Rightarrow> True)"

text \<open>A number that is NaN, \<open>+\<infinity>\<close> or a finite number not below \<open>c\<close>.\<close>

definition not_below :: "rat \<Rightarrow> jsnum \<Rightarrow> bool" where
  "not_below c x = (case x of NaN \<Rightarrow> True | PosInf \<Rightarrow> True | Num a \<Rightarrow> c \<le> a | _ \<Rightarrow> False)"


section \<open>Properties of rounding\<close>

lemma rnd_0 [simp]: "rnd 0 = Num 0"
  by (simp add: rnd_def)

lemma rhe_of_int [simp]: "rhe (of_int n) = n"
  by (simp add: rhe_def)

lemma rhe_cases: "rhe x = \<lfloor>x\<rfloor> \<or> rhe x = \<lfloor>x\<rfloor> + 1"
  by (simp add: rhe_def Let_def)

lemma rhe_mono: "x \<le> y \<Longrightarrow> rhe x \<le> rhe y"
proof -
  assume xy: "x \<le> y"
  then have fl: "\<lfloor>x\<rfloor> \<le> \<lfloor>y\<rfloor>" by (rule floor_mono)
  show ?thesis
  proof (cases "\<lfloor>x\<rfloor> < \<lfloor>y\<rfloor>")
    case True
    have "rhe x \<le> \<lfloor>x\<rfloor> + 1" using rhe_cases[of x] by auto
    moreover have "\<lfloor>y\<rfloor> \<le> rhe y" using rhe_cases[of y] by auto
    ultimately show ?thesis using True by linarith
  next
    case False
    with fl have eq: "\<lfloor>x\<rfloor> = \<lfloor>y\<rfloor>" by simp
    with xy show ?thesis
      by (auto simp add: rhe_def Let_def)
  qed
qed

lemma rhe_le: "x \<le> of_int n \<Longrightarrow> rhe x \<le> n"
  using rhe_mono[of x "of_int n"] by simp

lemma rhe_ge: "of_int n \<le> x \<Longrightarrow> n \<le> rhe x"
  using rhe_mono[of "of_int n" x] by simp

lemma bitlen_pos: "0 < n \<Longrightarrow> 1 \<le> bitlen n"
  by (metis add_cancel_left_left bitlen_eq_zero_iff bitlen_nonneg
    less_le_not_le nle_le zle_add1_eq_le)

lemma powi_nat: "0 \<le> k \<Longrightarrow> (2::rat) powi k = of_int (2 ^ nat k)"
  by (simp add: power_int_def)

lemma powi_neg: "0 \<le> k \<Longrightarrow> (2::rat) powi (- k) = 1 / of_int (2 ^ nat k)"
  by (simp add: power_int_def field_simps)

lemma expo_lower: assumes "0 < a" shows "2 powi (expo a) \<le> a"
proof (cases "1 \<le> a")
  case True
  define n where "n = \<lfloor>a\<rfloor>"
  have n1: "1 \<le> n" using True by (simp add: n_def)
  have b: "2 ^ nat (bitlen n - 1) \<le> n" using bitlen_bounds[of n] n1 by simp
  have e: "expo a = bitlen n - 1" using True by (simp add: expo_def n_def)
  have ge: "0 \<le> bitlen n - 1" using bitlen_pos[of n] n1 by simp
  have "(2::rat) powi (bitlen n - 1) = of_int (2 ^ nat (bitlen n - 1))"
    using ge by (rule powi_nat)
  also have "\<dots> \<le> of_int n" using b by (simp only: of_int_le_iff)
  also have "\<dots> \<le> a" by (simp add: n_def)
  finally show ?thesis by (simp add: e)
next
  case False
  define c where "c = \<lceil>1 / a\<rceil>"
  define k where "k = bitlen (c - 1)"
  have a1: "a < 1" using False by simp
  have inv: "1 < 1 / a" using assms a1 by simp
  have c2: "2 \<le> c" using inv unfolding c_def by (simp add: le_ceiling_iff)
  have k0: "0 \<le> k" by (simp add: k_def bitlen_nonneg)
  have b: "c - 1 < 2 ^ nat k" using bitlen_bounds[of "c - 1"] c2 by (simp add: k_def)
  then have cle: "c \<le> 2 ^ nat k" by simp
  have e: "expo a = - k" using False by (simp add: expo_def c_def k_def)
  have "1 / a \<le> of_int c" unfolding c_def by (rule le_of_int_ceiling)
  also have "\<dots> \<le> of_int (2 ^ nat k)" using cle by (simp only: of_int_le_iff)
  finally have "1 / a \<le> of_int (2 ^ nat k)" .
  then have "1 / of_int (2 ^ nat k) \<le> a"
    using assms by (simp add: field_simps)
  then show ?thesis using k0 by (simp add: e powi_neg)
qed

lemma expo_upper: assumes "0 < a" shows "a < 2 powi (expo a + 1)"
proof (cases "1 \<le> a")
  case True
  define n where "n = \<lfloor>a\<rfloor>"
  have n1: "1 \<le> n" using True by (simp add: n_def)
  have b: "n < 2 ^ nat (bitlen n)" using bitlen_bounds[of n] n1 by simp
  have e: "expo a = bitlen n - 1" using True by (simp add: expo_def n_def)
  have "a < of_int (n + 1)" unfolding n_def by linarith
  also have "\<dots> \<le> of_int (2 ^ nat (bitlen n))" using b by (simp only: of_int_le_iff)
  also have "\<dots> = 2 powi (bitlen n)" using bitlen_nonneg[of n] by (simp add: powi_nat)
  finally show ?thesis by (simp add: e)
next
  case False
  define c where "c = \<lceil>1 / a\<rceil>"
  define k where "k = bitlen (c - 1)"
  have a1: "a < 1" using False by simp
  have inv: "1 < 1 / a" using assms a1 by simp
  have c2: "2 \<le> c" using inv unfolding c_def by (simp add: le_ceiling_iff)
  have k1: "1 \<le> k" using bitlen_pos[of "c - 1"] c2 by (simp add: k_def)
  have b: "2 ^ nat (k - 1) \<le> c - 1" using bitlen_bounds[of "c - 1"] c2 by (simp add: k_def)
  have e: "expo a = - k" using False by (simp add: expo_def c_def k_def)
  have "of_int (2 ^ nat (k - 1)) \<le> (of_int (c - 1) :: rat)" using b by (simp only: of_int_le_iff)
  also have "\<dots> < 1 / a" unfolding c_def by linarith
  finally have "of_int (2 ^ nat (k - 1)) < 1 / a" .
  then have "a < 1 / of_int (2 ^ nat (k - 1))"
    using assms by (simp add: field_simps)
  also have "\<dots> = 2 powi (- (k - 1))" using k1 by (intro powi_neg[symmetric]) simp
  finally show ?thesis by (simp add: e)
qed

lemma powi2_less_iff: "(2::rat) powi i < 2 powi j \<longleftrightarrow> i < j"
  by (metis linorder_not_less nle_le one_less_numeral_iff power_int_increasing power_int_strict_increasing semiring_norm(76))

lemma powi2_le_iff: "(2::rat) powi i \<le> 2 powi j \<longleftrightarrow> i \<le> j"
  using powi2_less_iff[of j i] by (auto simp: not_less[symmetric])

lemma expo_unique:
  assumes "2 powi e \<le> a" "a < 2 powi (e + 1)"
  shows "expo a = e"
proof -
  have a0: "0 < a" using assms(1) by (meson less_le_trans zero_less_numeral zero_less_power_int)
  have "2 powi e < (2::rat) powi (expo a + 1)" using assms(1) expo_upper[OF a0] by simp
  then have 1: "e < expo a + 1" by (simp add: powi2_less_iff)
  have "2 powi (expo a) < (2::rat) powi (e + 1)" using assms(2) expo_lower[OF a0] by simp
  then have 2: "expo a < e + 1" by (simp add: powi2_less_iff)
  from 1 2 show ?thesis by simp
qed

lemma expo_mono: assumes "0 < a" "a \<le> b" shows "expo a \<le> expo b"
proof -
  have b0: "0 < b" using assms by simp
  have "2 powi (expo a) \<le> a" using assms(1) by (rule expo_lower)
  also have "\<dots> \<le> b" by fact
  also have "\<dots> < 2 powi (expo b + 1)" using b0 by (rule expo_upper)
  finally show ?thesis by (simp add: powi2_less_iff)
qed

lemma powi2_div: "(2::rat) powi i / 2 powi j = 2 powi (i - j)"
  by (simp add: power_int_diff)

lemma powi2_mult: "(2::rat) powi i * 2 powi j = 2 powi (i + j)"
  by (simp add: power_int_add)

lemma spacing_pos: "0 < spacing a"
  by (simp add: spacing_def)

lemma rnd_mag_mono:
  assumes "0 < a" "a \<le> b"
  shows "rnd_mag a \<le> rnd_mag b"
proof -
  define ea where "ea = max (expo a) (- 1022)"
  define eb where "eb = max (expo b) (- 1022)"
  have b0: "0 < b" using assms by simp
  have le: "ea \<le> eb" using expo_mono[OF assms] by (simp add: ea_def eb_def)
  have sa: "spacing a = 2 powi (ea - 52)" by (simp add: spacing_def ea_def)
  have sb: "spacing b = 2 powi (eb - 52)" by (simp add: spacing_def eb_def)
  show ?thesis
  proof (cases "ea = eb")
    case True
    then have s: "spacing a = spacing b" by (simp add: sa sb)
    have "a / spacing b \<le> b / spacing b"
      using assms(2) spacing_pos[of b] by (simp add: divide_right_mono)
    then have "rhe (a / spacing b) \<le> rhe (b / spacing b)" by (rule rhe_mono)
    then show ?thesis
      using spacing_pos[of b] by (simp add: rnd_mag_def s)
  next
    case False
    with le have lt: "ea < eb" by simp
    then have eb: "eb = expo b" by (simp add: ea_def eb_def max_def split: if_splits)
    have "a < 2 powi (expo a + 1)" using assms(1) by (rule expo_upper)
    also have "\<dots> \<le> 2 powi (ea + 1)" by (simp add: powi2_le_iff ea_def)
    finally have "a < 2 powi (ea + 1)" .
    then have "a / spacing a < 2 powi (ea + 1) / 2 powi (ea - 52)"
      by (simp add: sa divide_strict_right_mono)
    also have "\<dots> = 2 powi ((ea + 1) - (ea - 52))"
      by (simp only: powi2_div)
    finally have "a / spacing a \<le> of_int (2 ^ 53)" by simp
    then have "rhe (a / spacing a) \<le> 2 ^ 53" by (rule rhe_le)
    then have "rnd_mag a \<le> 2 powi (ea - 52) * of_int (2 ^ 53)"
      unfolding rnd_mag_def sa by (simp only: mult_le_cancel_left_pos zero_less_power_int zero_less_numeral of_int_le_iff)
    also have "\<dots> = 2 powi (ea - 52) * 2 powi 53" by simp
    also have "\<dots> = 2 powi ((ea - 52) + 53)" by (simp only: powi2_mult)
    also have "\<dots> = 2 powi (ea + 1)" by (simp add: add.commute)
    also have "\<dots> \<le> 2 powi eb" using lt by (simp add: powi2_le_iff)
    finally have A: "rnd_mag a \<le> 2 powi eb" .
    have "2 powi eb \<le> b" unfolding eb using b0 by (rule expo_lower)
    then have "2 powi eb / 2 powi (eb - 52) \<le> b / spacing b"
      by (simp add: sb divide_right_mono)
    then have "2 powi (eb - (eb - 52)) \<le> b / spacing b"
      by (simp only: powi2_div)
    then have "of_int (2 ^ 52) \<le> b / spacing b"
      by simp
    then have "2 ^ 52 \<le> rhe (b / spacing b)" by (rule rhe_ge)
    then have "2 powi (eb - 52) * of_int (2 ^ 52) \<le> rnd_mag b"
      unfolding rnd_mag_def sb by (simp only: mult_le_cancel_left_pos zero_less_power_int zero_less_numeral of_int_le_iff)
    moreover have "2 powi (eb - 52) * of_int (2 ^ 52) = (2::rat) powi (eb - 52) * 2 powi 52" by simp
    moreover have "\<dots> = 2 powi ((eb - 52) + 52)" by (simp only: powi2_mult)
    ultimately have B: "2 powi eb \<le> rnd_mag b"
      by simp
    from A B show ?thesis by simp
  qed
qed


section \<open>Rounding is monotone\<close>

lemma rnd_mag_nonneg: "0 \<le> a \<Longrightarrow> 0 \<le> rnd_mag a"
proof -
  assume "0 \<le> a"
  then have "of_int 0 \<le> a / spacing a" using spacing_pos[of a] by simp
  then have "0 \<le> rhe (a / spacing a)" by (rule rhe_ge)
  then show ?thesis using spacing_pos[of a] by (simp add: rnd_mag_def)
qed

lemma rnd_pos_cases:
  assumes "0 < q"
  shows "(rnd q = PosInf \<and> 2 ^ 1024 \<le> rnd_mag q) \<or>
         (rnd q = Num (rnd_mag q) \<and> rnd_mag q < 2 ^ 1024)"
  using assms by (auto simp add: rnd_def Let_def)

lemma rnd_neg_cases:
  assumes "q < 0"
  shows "(rnd q = NegInf \<and> 2 ^ 1024 \<le> rnd_mag (- q)) \<or>
         (rnd q = NegZero \<and> rnd_mag (- q) = 0) \<or>
         (rnd q = Num (- rnd_mag (- q)) \<and> rnd_mag (- q) < 2 ^ 1024 \<and> rnd_mag (- q) \<noteq> 0)"
  using assms by (auto simp add: rnd_def Let_def abs_if)

lemma rnd_mono:
  assumes "p \<le> q"
  shows "rnd p \<le> rnd q"
proof -
  consider (a) "0 < p" | (b) "p = 0" "q = 0" | (c) "p = 0" "0 < q" | (d) "p < 0" "q < 0"
    | (e) "p < 0" "q = 0" | (f) "p < 0" "0 < q"
    using assms by fastforce
  then show ?thesis
  proof cases
    case a
    then have q: "0 < q" using assms by simp
    have m: "rnd_mag p \<le> rnd_mag q" using a assms by (rule rnd_mag_mono)
    show ?thesis using rnd_pos_cases[OF a] rnd_pos_cases[OF q] m rnd_mag_nonneg[of p] a
      by auto
  next
    case b
    then show ?thesis by simp
  next
    case c
    show ?thesis using rnd_pos_cases[OF c(2)] rnd_mag_nonneg[of q] c by auto
  next
    case d
    have m: "rnd_mag (- q) \<le> rnd_mag (- p)" using d assms by (intro rnd_mag_mono) simp_all
    show ?thesis using rnd_neg_cases[OF d(1)] rnd_neg_cases[OF d(2)] m
        rnd_mag_nonneg[of "- p"] rnd_mag_nonneg[of "- q"] d
      by auto
  next
    case e
    show ?thesis using rnd_neg_cases[OF e(1)] rnd_mag_nonneg[of "- p"] e by auto
  next
    case f
    show ?thesis using rnd_neg_cases[OF f(1)] rnd_pos_cases[OF f(2)]
        rnd_mag_nonneg[of "- p"] rnd_mag_nonneg[of q] f
      by auto
  qed
qed


section \<open>Rounding is idempotent\<close>

lemma rnd_uminus: "q \<noteq> 0 \<Longrightarrow> rnd (- q) = - rnd q"
  by (auto simp add: rnd_def Let_def)

lemma rnd_mag_fixed:
  assumes "max (expo r) (- 1022) = e" "r = 2 powi (e - 52) * of_int m"
  shows "rnd_mag r = r"
proof -
  have "r / 2 powi (e - 52) = of_int m" using assms(2) by simp
  then show ?thesis using assms by (simp add: rnd_mag_def spacing_def)
qed

lemma rnd_mag_0 [simp]: "rnd_mag 0 = 0"
  by (simp add: rnd_mag_def rhe_def)

lemma rnd_mag_idem:
  assumes "0 < a"
  shows "rnd_mag (rnd_mag a) = rnd_mag a"
proof -
  define e where "e = max (expo a) (- 1022)"
  define u where "u = (2::rat) powi (e - 52)"
  define m where "m = rhe (a / u)"
  have u0: "0 < u" by (simp add: u_def)
  have r: "rnd_mag a = u * of_int m" by (simp add: rnd_mag_def spacing_def e_def u_def m_def)
  have "a < 2 powi (expo a + 1)" using assms by (rule expo_upper)
  also have "\<dots> \<le> 2 powi (e + 1)" by (simp add: powi2_le_iff e_def)
  finally have "a / u < 2 powi (e + 1) / 2 powi (e - 52)"
    using u0 by (simp add: u_def divide_strict_right_mono)
  also have "\<dots> = 2 powi ((e + 1) - (e - 52))" by (simp only: powi2_div)
  finally have "a / u \<le> of_int (2 ^ 53)" by simp
  then have m_le: "m \<le> 2 ^ 53" unfolding m_def by (rule rhe_le)
  have "of_int 0 \<le> a / u" using assms u0 by simp
  then have m_ge: "0 \<le> m" unfolding m_def by (rule rhe_ge)
  show ?thesis
  proof (cases "m = 0")
    case True
    then show ?thesis by (simp add: r)
  next
    case False
    with m_ge have m_pos: "0 < m" by simp
    show ?thesis
    proof (cases "- 1022 \<le> expo a")
      case True
      then have e: "e = expo a" by (simp add: e_def)
      have "2 powi e \<le> a" unfolding e using assms by (rule expo_lower)
      then have "2 powi e / 2 powi (e - 52) \<le> a / u"
        using u0 by (simp add: u_def divide_right_mono)
      then have "2 powi (e - (e - 52)) \<le> a / u" by (simp only: powi2_div)
      then have "of_int (2 ^ 52) \<le> a / u" by simp
      then have m_ge52: "2 ^ 52 \<le> m" unfolding m_def by (rule rhe_ge)
      show ?thesis
      proof (cases "m = 2 ^ 53")
        case True
        have "u * of_int m = 2 powi (e - 52) * 2 powi 53" by (simp add: True u_def)
        also have "\<dots> = 2 powi ((e - 52) + 53)" by (simp only: powi2_mult)
        finally have rv: "u * of_int m = 2 powi (e + 1)" by (simp add: add.commute)
        have "2 powi (e + 1) \<le> u * of_int m" "u * of_int m < 2 powi (e + 1 + 1)"
          by (simp_all add: rv powi2_less_iff)
        then have "expo (u * of_int m) = e + 1" by (rule expo_unique)
        then have mx: "max (expo (u * of_int m)) (- 1022) = e + 1" using True e \<open>- 1022 \<le> expo a\<close> by simp
        have "2 powi (e + 1 - 52) * of_int (2 ^ 52) = (2::rat) powi (e + 1 - 52) * 2 powi 52" by simp
        also have "\<dots> = 2 powi ((e + 1 - 52) + 52)" by (simp only: powi2_mult)
        finally have "u * of_int m = 2 powi (e + 1 - 52) * of_int (2 ^ 52)" by (simp add: rv add.commute)
        with mx show ?thesis unfolding r by (rule rnd_mag_fixed)
      next
        case False
        with m_le have m_lt: "m < 2 ^ 53" by simp
        have "2 powi (e - 52) * of_int (2 ^ 52) = (2::rat) powi (e - 52) * 2 powi 52" by simp
        also have "\<dots> = 2 powi ((e - 52) + 52)" by (simp only: powi2_mult)
        finally have lo: "2 powi (e - 52) * of_int (2 ^ 52) = (2::rat) powi e" by simp
        have "2 powi (e - 52) * of_int (2 ^ 53) = (2::rat) powi (e - 52) * 2 powi 53" by simp
        also have "\<dots> = 2 powi ((e - 52) + 53)" by (simp only: powi2_mult)
        finally have hi: "2 powi (e - 52) * of_int (2 ^ 53) = (2::rat) powi (e + 1)" by (simp add: add.commute)
        have "u * of_int (2 ^ 52) \<le> u * of_int m"
          using m_ge52 u0 by (simp only: mult_le_cancel_left_pos of_int_le_iff)
        then have 1: "2 powi e \<le> u * of_int m" unfolding u_def lo .
        have "u * of_int m < u * of_int (2 ^ 53)"
          using m_lt u0 by (simp only: mult_less_cancel_left_pos of_int_less_iff)
        then have 2: "u * of_int m < 2 powi (e + 1)" unfolding u_def hi .
        from 1 2 have "expo (u * of_int m) = e" by (rule expo_unique)
        then have mx: "max (expo (u * of_int m)) (- 1022) = e" using e \<open>- 1022 \<le> expo a\<close> by simp
        from mx show ?thesis unfolding r by (rule rnd_mag_fixed) (simp add: u_def)
      qed
    next
      case False
      define k where "k = (- 1022 :: int)"
      have e: "e = k" using False by (simp add: e_def k_def)
      have ek: "expo a + 1 \<le> k" using False by (simp add: k_def)
      have "a < 2 powi (expo a + 1)" using assms by (rule expo_upper)
      also have "\<dots> \<le> 2 powi k" using ek by (simp only: powi2_le_iff)
      finally have "a / u < 2 powi k / 2 powi (k - 52)"
        using u0 by (simp add: u_def e divide_strict_right_mono)
      also have "\<dots> = 2 powi (k - (k - 52))" by (simp only: powi2_div)
      finally have "a / u \<le> of_int (2 ^ 52)" by simp
      then have m_le52: "m \<le> 2 ^ 52" unfolding m_def by (rule rhe_le)
      have rpos: "0 < u * of_int m" using u0 m_pos by simp
      have "u * of_int m \<le> u * of_int (2 ^ 52)"
        using m_le52 u0 by (simp only: mult_le_cancel_left_pos of_int_le_iff)
      also have "u * of_int (2 ^ 52) = 2 powi (k - 52) * 2 powi 52" by (simp add: u_def e)
      also have "\<dots> = 2 powi ((k - 52) + 52)" by (simp only: powi2_mult)
      finally have rle: "u * of_int m \<le> 2 powi k" by simp
      have "2 powi (expo (u * of_int m)) \<le> u * of_int m" using rpos by (rule expo_lower)
      with rle have "(2::rat) powi (expo (u * of_int m)) \<le> 2 powi k" by simp
      then have "expo (u * of_int m) \<le> k" by (simp only: powi2_le_iff)
      then have mx: "max (expo (u * of_int m)) (- 1022) = e" by (simp add: e k_def)
      from mx show ?thesis unfolding r by (rule rnd_mag_fixed) (simp add: u_def)
    qed
  qed
qed

lemma rnd_idem: assumes "rnd q = Num r" shows "rnd r = Num r"
proof (cases "q = 0")
  case True
  then show ?thesis using assms by simp
next
  case False
  then have a0: "0 < \<bar>q\<bar>" by simp
  have i: "rnd_mag (rnd_mag \<bar>q\<bar>) = rnd_mag \<bar>q\<bar>" using a0 by (rule rnd_mag_idem)
  have n: "0 \<le> rnd_mag \<bar>q\<bar>" by (rule rnd_mag_nonneg) simp
  show ?thesis
  proof (cases "0 < q")
    case True
    then show ?thesis using assms i n
      by (auto simp add: rnd_def Let_def split: if_splits)
  next
    case False
    then show ?thesis using assms i n \<open>q \<noteq> 0\<close>
      by (auto simp add: rnd_def Let_def split: if_splits)
  qed
qed

lemma is_double_rnd: "is_double (rnd q)"
  by (cases "rnd q") (simp_all add: rnd_idem)

lemma is_double_plus: "is_double (x + y)"
  by (cases x; cases y) (simp_all add: is_double_rnd)


section \<open>Sums of binary64 numbers\<close>

lemma rnd_mag_grid: "\<exists>k::int. rnd_mag a = of_int k * 2 powi (- 1074)"
proof -
  define e where "e = max (expo a) (- 1022)"
  define g where "g = (2::rat) powi (- 1074)"
  have e0: "0 \<le> e + 1022" by (simp add: e_def)
  have "(2::rat) powi (e - 52) = 2 powi ((e + 1022) + (- 1074))" by simp
  also have "\<dots> = 2 powi (e + 1022) * 2 powi (- 1074)" by (simp only: powi2_mult)
  also have "\<dots> = of_int (2 ^ nat (e + 1022)) * g" using e0 by (simp only: powi_nat g_def)
  finally have "rnd_mag a = of_int (2 ^ nat (e + 1022) * rhe (a / spacing a)) * g"
    by (simp add: rnd_mag_def spacing_def e_def)
  then show ?thesis unfolding g_def by blast
qed

lemma rnd_grid:
  assumes "rnd q = Num r"
  shows "\<exists>k::int. r = of_int k * 2 powi (- 1074)"
proof -
  obtain k :: int where k: "rnd_mag \<bar>q\<bar> = of_int k * 2 powi (- 1074)"
    using rnd_mag_grid by blast
  have "r = 0 \<or> r = rnd_mag \<bar>q\<bar> \<or> r = - rnd_mag \<bar>q\<bar>"
    using assms by (auto simp add: rnd_def Let_def split: if_splits)
  then consider "r = of_int 0 * 2 powi (- 1074)" | "r = of_int k * 2 powi (- 1074)"
    | "r = of_int (- k) * 2 powi (- 1074)"
    using k by auto
  then show ?thesis by cases blast+
qed

lemma rnd_mag_least:
  assumes "2 powi (- 1074) \<le> a"
  shows "2 powi (- 1074) \<le> rnd_mag a"
proof -
  define g where "g = (2::rat) powi (- 1074)"
  have g0: "0 < g" by (simp add: g_def)
  have "2 powi (- 1074) \<le> g" "g < 2 powi (- 1074 + 1)"
    unfolding g_def by (simp_all only: powi2_less_iff order_refl)
  then have "expo g = - 1074" by (rule expo_unique)
  then have mx: "max (expo g) (- 1022) = - 1022" by simp
  have "rnd_mag g = g" using mx by (rule rnd_mag_fixed) (simp add: g_def)
  moreover have "rnd_mag g \<le> rnd_mag a" using g0 assms by (intro rnd_mag_mono) (simp_all add: g_def)
  ultimately show ?thesis by (simp add: g_def)
qed

lemma rnd_negative_sum:
  assumes "rnd p = Num p" "rnd c = Num c" "p + c < 0"
  shows "\<not> 0 \<le> rnd (p + c)"
proof -
  define g where "g = (2::rat) powi (- 1074)"
  have g0: "0 < g" by (simp add: g_def)
  obtain kp :: int where kp: "p = of_int kp * g" using rnd_grid[OF assms(1)] g_def by blast
  obtain kc :: int where kc: "c = of_int kc * g" using rnd_grid[OF assms(2)] g_def by blast
  have s: "p + c = of_int (kp + kc) * g" by (simp add: kp kc algebra_simps)
  then have "of_int (kp + kc) * g < 0" using assms(3) by simp
  then have "kp + kc < 0" using g0 by (simp add: mult_less_0_iff)
  then have "1 \<le> - (kp + kc)" by simp
  then have "(1::rat) \<le> of_int (- (kp + kc))" by (simp only: of_int_le_iff[symmetric, where 'a = rat] of_int_1)
  then have "1 * g \<le> of_int (- (kp + kc)) * g" using g0 by (simp only: mult_le_cancel_right_pos)
  then have "g \<le> - (p + c)" by (simp add: kp kc algebra_simps)
  then have "g \<le> rnd_mag (- (p + c))" unfolding g_def by (rule rnd_mag_least)
  then have "0 < rnd_mag (- (p + c))" using g0 by simp
  then show ?thesis using rnd_neg_cases[OF assms(3)] by (auto simp add: zero_jsnum_def)
qed


section \<open>Evaluating the arithmetic on numerals\<close>

lemma floor_rat_numeral [simp]: "\<lfloor>numeral a / numeral b :: rat\<rfloor> = numeral a div numeral b"
  by (metis floor_divide_of_int_eq of_int_numeral)

lemma floor_rat_neg_numeral [simp]: "\<lfloor>- (numeral a / numeral b) :: rat\<rfloor> = - numeral a div numeral b"
  by (metis floor_divide_of_int_eq of_int_numeral of_int_minus minus_divide_left)

lemma floor_rat_inverse_numeral [simp]: "\<lfloor>1 / numeral b :: rat\<rfloor> = 1 div numeral b"
  by (metis floor_divide_of_int_eq of_int_numeral of_int_1)

lemma ceiling_rat_numeral [simp]: "\<lceil>numeral a / numeral b :: rat\<rceil> = - (- numeral a div numeral b)"
  by (metis ceiling_def floor_divide_of_int_eq of_int_numeral of_int_minus minus_divide_left)

lemma bitlen_One [simp]: "bitlen 1 = 1" "bitlen (numeral Num.One) = 1"
  by (simp_all add: compute_bitlen[of 1])

lemma bitlen_Bit0 [simp]: "bitlen (numeral (Num.Bit0 n)) = bitlen (numeral n) + 1"
  by (subst compute_bitlen) simp

lemma bitlen_Bit1 [simp]: "bitlen (numeral (Num.Bit1 n)) = bitlen (numeral n) + 1"
  by (subst compute_bitlen) simp

text \<open>
  The exponent of a fraction from the bit lengths of its numerator and denominator, and
  the overflow test on the exponent: the simplifier then rounds a numeral without
  dividing large integers more than once.
\<close>

lemma expo_fraction:
  assumes "0 < n" "0 < d"
  shows "expo (of_int n / of_int d) =
    (if 2 powi (bitlen n - bitlen d) \<le> (of_int n / of_int d :: rat)
     then bitlen n - bitlen d else bitlen n - bitlen d - 1)"
proof -
  define a where "a = (of_int n / of_int d :: rat)"
  define bn where "bn = bitlen n"
  define bd where "bd = bitlen d"
  have bn1: "1 \<le> bn" and bd1: "1 \<le> bd" using assms by (simp_all add: bn_def bd_def bitlen_pos)
  have n_lo: "(2::rat) powi (bn - 1) \<le> of_int n"
  proof -
    have "2 ^ nat (bn - 1) \<le> n" using bitlen_bounds[OF assms(1)] by (simp add: bn_def)
    then have "(of_int (2 ^ nat (bn - 1)) :: rat) \<le> of_int n" by (simp only: of_int_le_iff)
    then show ?thesis using bn1 by (simp add: powi_nat)
  qed
  have n_hi: "of_int n < (2::rat) powi bn"
  proof -
    have "n < 2 ^ nat bn" using bitlen_bounds[OF assms(1)] by (simp add: bn_def)
    then have "(of_int n :: rat) < of_int (2 ^ nat bn)" by (simp only: of_int_less_iff)
    then show ?thesis using bn1 by (simp add: powi_nat)
  qed
  have d_lo: "(2::rat) powi (bd - 1) \<le> of_int d"
  proof -
    have "2 ^ nat (bd - 1) \<le> d" using bitlen_bounds[OF assms(2)] by (simp add: bd_def)
    then have "(of_int (2 ^ nat (bd - 1)) :: rat) \<le> of_int d" by (simp only: of_int_le_iff)
    then show ?thesis using bd1 by (simp add: powi_nat)
  qed
  have d_hi: "of_int d < (2::rat) powi bd"
  proof -
    have "d < 2 ^ nat bd" using bitlen_bounds[OF assms(2)] by (simp add: bd_def)
    then have "(of_int d :: rat) < of_int (2 ^ nat bd)" by (simp only: of_int_less_iff)
    then show ?thesis using bd1 by (simp add: powi_nat)
  qed
  have dpos: "(0::rat) < of_int d" using assms(2) by simp
  have npos: "(0::rat) < of_int n" using assms(1) by simp
  have "2 powi (bn - 1) / 2 powi bd < a"
  proof -
    have "2 powi (bn - 1) / 2 powi bd \<le> of_int n / (2::rat) powi bd"
      using n_lo by (simp add: divide_right_mono)
    also have "\<dots> < of_int n / of_int d"
      using d_hi dpos npos by (simp add: divide_strict_left_mono)
    finally show ?thesis by (simp add: a_def)
  qed
  then have lo: "2 powi (bn - bd - 1) < a" by (simp add: powi2_div algebra_simps)
  have "a < 2 powi bn / 2 powi (bd - 1)"
  proof -
    have "of_int n / of_int d < (2::rat) powi bn / of_int d"
      using n_hi dpos by (simp add: divide_strict_right_mono)
    also have "\<dots> \<le> 2 powi bn / 2 powi (bd - 1)"
      using d_lo by (intro frac_le) simp_all
    finally show ?thesis by (simp add: a_def)
  qed
  then have hi: "a < 2 powi (bn - bd + 1)" by (simp add: powi2_div algebra_simps)
  show ?thesis
  proof (cases "2 powi (bn - bd) \<le> a")
    case True
    then have "expo a = bn - bd" using hi by (rule expo_unique)
    then show ?thesis using True by (simp add: a_def bn_def bd_def)
  next
    case False
    have "2 powi (bn - bd - 1) \<le> a" using lo by simp
    moreover have "a < 2 powi (bn - bd - 1 + 1)" using False by simp
    ultimately have "expo a = bn - bd - 1" by (rule expo_unique)
    then show ?thesis using False by (simp add: a_def bn_def bd_def)
  qed
qed

lemma expo_numeral_fraction:
  "expo (numeral n / numeral d) =
    (if 2 powi (bitlen (numeral n) - bitlen (numeral d)) \<le> (numeral n / numeral d :: rat)
     then bitlen (numeral n) - bitlen (numeral d) else bitlen (numeral n) - bitlen (numeral d) - 1)"
  using expo_fraction[of "numeral n" "numeral d"] by simp

lemma expo_numeral: "expo (numeral n) = bitlen (numeral n) - 1"
  by (simp add: expo_def)

lemma expo_inverse_numeral:
  "expo (1 / numeral d) =
    (if 2 powi (1 - bitlen (numeral d)) \<le> (1 / numeral d :: rat)
     then 1 - bitlen (numeral d) else - bitlen (numeral d))"
  using expo_fraction[of 1 "numeral d"] by simp

lemma expo_1: "expo 1 = 0"
  by (simp add: expo_def)

lemma overflow_iff_expo:
  assumes "0 < r"
  shows "(2 ^ 1024 \<le> r) = (1024 \<le> expo r)"
proof
  assume "2 ^ 1024 \<le> r"
  then have "(2::rat) powi 1024 \<le> r" by simp
  also have "r < 2 powi (expo r + 1)" using assms by (rule expo_upper)
  finally have "(1024::int) < expo r + 1" by (simp only: powi2_less_iff)
  then show "1024 \<le> expo r" by simp
next
  assume "1024 \<le> expo r"
  then have "(2::rat) powi 1024 \<le> 2 powi (expo r)" by (simp only: powi2_le_iff)
  also have "\<dots> \<le> r" using assms by (rule expo_lower)
  finally show "2 ^ 1024 \<le> r" by simp
qed

lemma rnd_code:
  "rnd q = (if q = 0 then Num 0 else
     let r = rnd_mag \<bar>q\<bar> in
     if r = 0 then (if 0 < q then Num 0 else NegZero)
     else if 1024 \<le> expo r then (if 0 < q then PosInf else NegInf)
     else Num (if 0 < q then r else - r))"
proof (cases "rnd_mag \<bar>q\<bar> = 0")
  case True
  then show ?thesis by (simp add: rnd_def)
next
  case False
  have "0 \<le> rnd_mag \<bar>q\<bar>" by (rule rnd_mag_nonneg) simp
  with False have "0 < rnd_mag \<bar>q\<bar>" by simp
  then have eq: "(2 ^ 1024 \<le> rnd_mag \<bar>q\<bar>) = (1024 \<le> expo (rnd_mag \<bar>q\<bar>))"
    by (rule overflow_iff_expo)
  show ?thesis unfolding rnd_def Let_def eq using False by simp
qed

lemma rnd_mag_code: "rnd_mag a = (let u = spacing a in u * of_int (rhe (a / u)))"
  by (simp add: rnd_mag_def Let_def)

lemmas rnd_eval = rnd_code rnd_mag_code spacing_def rhe_def Let_def
  expo_numeral_fraction expo_numeral expo_inverse_numeral expo_1

lemmas js_eval = rnd_eval divide_jsnum_def times_jsnum_def minus_jsnum_def zero_jsnum_def
  one_jsnum_def zero_of_def inf_of_def

lemma rnd_1 [simp]: "rnd 1 = Num 1"
  by (simp add: rnd_eval)

lemma divide_by_1: "is_double x \<Longrightarrow> x / Num 1 = x"
  by (cases x) (auto simp add: divide_jsnum_def zero_of_def inf_of_def)

lemma one_plus_zero: "(1::jsnum) + 0 = Num 1"
  by (simp add: one_jsnum_def zero_jsnum_def)


section \<open>What every engine guarantees\<close>

lemma engine_shared:
  "(\<forall>x. Math_pow E x 0 = Num 1) \<and>
   (\<forall>x. is_double x \<longrightarrow> Math_pow E x 1 = x) \<and>
   (\<forall>t. Math_pow E (Num 1) t = Num 1) \<and>
   (\<forall>y t. 0 < y \<longrightarrow> Math_pow E (Num y) t \<noteq> NaN \<and> \<not> negative (Math_pow E (Num y) t)) \<and>
   capacity E \<le> 4294967295"
  using Rep_engine[of E] by (simp add: Math_pow_def capacity_def case_prod_beta)

lemma Math_pow_0 [simp]: "Math_pow E x 0 = Num 1"
  using engine_shared[of E] by simp

lemma Math_pow_base: "is_double x \<Longrightarrow> Math_pow E x 1 = x"
  using engine_shared[of E] by simp

lemma Math_pow_sum [simp]: "Math_pow E (x + y) (Suc 0) = x + y"
  using Math_pow_base[of "x + y" E] by (simp add: is_double_plus)

lemma Math_pow_1: "Math_pow E (Num 1) t = Num 1"
  using engine_shared[of E] by simp

lemma Math_pow_positive:
  assumes "0 < y"
  shows "Math_pow E (Num y) t = PosInf \<or> (\<exists>r. Math_pow E (Num y) t = Num r \<and> 0 \<le> r)"
proof -
  have "Math_pow E (Num y) t \<noteq> NaN \<and> \<not> negative (Math_pow E (Num y) t)"
    using engine_shared[of E] assms by simp
  then show ?thesis by (cases "Math_pow E (Num y) t") simp_all
qed

lemma capacity_le: "capacity E \<le> 4294967295"
  using engine_shared[of E] by simp

text \<open>The correctly rounded power has these properties.\<close>

lemma pow_rounded_base: "is_double x \<Longrightarrow> pow_rounded x (Suc 0) = x"
  by (cases x) simp_all

lemma pow_rounded_1: "pow_rounded (Num 1) t = Num 1"
  by (cases t) simp_all

lemma pow_rounded_positive:
  assumes "0 < y"
  shows "pow_rounded (Num y) t \<noteq> NaN \<and> \<not> negative (pow_rounded (Num y) t)"
proof (cases t)
  case 0
  then show ?thesis by simp
next
  case (Suc n)
  have p: "0 < y ^ t" using assms by simp
  have "rnd (y ^ t) \<noteq> NaN \<and> \<not> negative (rnd (y ^ t))"
    using rnd_pos_cases[OF p] rnd_mag_nonneg[of "y ^ t"] p by auto
  then show ?thesis using Suc assms by simp
qed

lemma Rep_reference_engine: "Rep_engine reference_engine = (pow_rounded, 4294967295)"
  unfolding reference_engine_def
  by (rule Abs_engine_inverse)
    (simp add: pow_rounded_base pow_rounded_1 pow_rounded_positive)

lemma Math_pow_reference_engine [simp]: "Math_pow reference_engine = pow_rounded"
  by (simp add: Math_pow_def Rep_reference_engine)

lemma capacity_reference_engine [simp]: "capacity reference_engine = 4294967295"
  by (simp add: capacity_def Rep_reference_engine)


section \<open>Discounting\<close>

lemma length_discountedCashflows: "length (discountedCashflows E rate cashflows) = length cashflows"
  by (simp add: discountedCashflows_def)

lemma nth_discountedCashflows:
  "t < length cashflows \<Longrightarrow>
   discountedCashflows E rate cashflows ! t = cashflows ! t / Math_pow E (1 + rate) t"
  by (simp add: discountedCashflows_def)

text \<open>The net present value of a series of one or two periods, written out.\<close>

lemma npv_single: "npv E r [a] = 0 + a / Num 1"
  by (simp add: npv_def npv_loop.simps)

lemma npv_pair: "npv E r [a, b] = 0 + a / Num 1 + b / (1 + r)"
  by (simp add: npv_def npv_loop.simps)

text \<open>
  Claim C7.  For every rate \<open>r\<close>, finite or not, and every non-empty series \<open>S\<close> of
  binary64 numbers, the discounted series has the length of \<open>S\<close> and its element 0 is
  \<open>S[0]\<close> itself: \<^verbatim>\<open>Math.pow\<close> with exponent 0 is 1 for every base, and dividing by 1
  changes no number.
\<close>

theorem presentValue_element_0:
  assumes "S \<noteq> []" and "is_double (S ! 0)"
  shows "length (discountedCashflows E r S) = length S \<and> discountedCashflows E r S ! 0 = S ! 0"
  using assms by (simp add: length_discountedCashflows nth_discountedCashflows divide_by_1)

theorem presentValue_element_0_witness:
  "[Num 5, NaN] \<noteq> [] \<and> is_double ([Num 5, NaN] ! 0)
   \<and> (\<forall>E. length (discountedCashflows E NegInf [Num 5, NaN]) = length [Num 5, NaN]
         \<and> discountedCashflows E NegInf [Num 5, NaN] ! 0 = [Num 5, NaN] ! 0)"
proof -
  have h: "is_double ([Num 5, NaN] ! 0)" by (simp add: rnd_eval)
  show ?thesis
    using h presentValue_element_0 [where S = "[Num 5, NaN]" and r = NegInf] by simp
qed

lemma npv_loop_zero_rate:
  assumes "\<forall>x\<in>set S. is_double x"
  shows "npv_loop E 0 S t s = foldl (+) s (drop t S)"
proof (induction "length S - t" arbitrary: t s)
  case 0
  then show ?case by (simp add: npv_loop.simps)
next
  case (Suc n)
  then have lt: "t < length S" by simp
  have d: "is_double (S ! t)" using assms lt by simp
  have "npv_loop E 0 S t s = npv_loop E 0 S (t + 1) (s + S ! t)"
    using lt d by (subst npv_loop.simps) (simp add: one_plus_zero Math_pow_1 divide_by_1)
  also have "\<dots> = foldl (+) (s + S ! t) (drop (t + 1) S)"
    using Suc by simp
  also have "\<dots> = foldl (+) s (drop t S)"
    using lt by (simp add: Cons_nth_drop_Suc[symmetric])
  finally show ?case .
qed

text \<open>
  Claim C8.  At rate 0 the net present value of a series of binary64 numbers is the
  plain sum of its elements, added from left to right starting from 0.
\<close>

theorem netPresentValue_zero_rate:
  assumes "\<forall>x\<in>set S. is_double x"
  shows "npv E 0 S = foldl (+) 0 S"
  using npv_loop_zero_rate[OF assms, where t = 0 and s = 0] by (simp add: npv_def)

theorem netPresentValue_zero_rate_witness:
  "is_double (Num (- 100)) \<and> is_double (Num 40)
   \<and> (\<forall>E. npv E 0 [Num (- 100), Num 40, Num 40] = Num (- 20))"
proof -
  have d: "is_double (Num (- 100))" "is_double (Num 40)" by (simp_all add: rnd_eval)
  then have h: "\<forall>x\<in>set [Num (- 100), Num 40, Num 40]. is_double x" by simp
  have "foldl (+) 0 [Num (- 100), Num 40, Num 40] = Num (- 20)"
    by (simp add: js_eval)
  then show ?thesis using d netPresentValue_zero_rate [OF h] by simp
qed


section \<open>The root finder and its reference algorithm\<close>

lemma irr_loop_bisect:
  "i \<le> 120 \<Longrightarrow>
   returned (irr_loop f i lo hi flo fhi) =
     bisect f (120 - i) \<lparr>lower = lo, upper = hi, f_lower = flo, f_upper = fhi\<rparr>"
proof (induction "120 - i" arbitrary: i lo hi flo fhi)
  case 0
  then have "i = 120" by simp
  then show ?case by (simp add: irr_loop.simps midpoint_def)
next
  case (Suc n)
  then have lt: "i < 120" and n: "n = 120 - (i + 1)" and le: "i + 1 \<le> 120" by simp_all
  have s: "120 - i = Suc n" using Suc(2) by simp
  have ih: "returned (irr_loop f (Suc i) lo' hi' flo' fhi') =
     bisect f n \<lparr>lower = lo', upper = hi', f_lower = flo', f_upper = fhi'\<rparr>"
    for lo' hi' flo' fhi'
    using Suc(1)[OF n le] n by simp
  show ?case
    unfolding s
    using lt
    by (subst irr_loop.simps) (simp add: ih bisect_step_def midpoint_def Let_def)
qed

text \<open>
  Claim C2.  \<^verbatim>\<open>irr\<close> is extensionally equal to the bisection procedure of the
  specification: the bracket \<open>[-0.9999, 10]\<close>, failure on a non-finite end value, the
  immediate return of an end with value exactly zero, at most one expansion to
  \<open>hi = 50\<close>, at most 120 iterations that fail on a non-finite midpoint value, return
  the midpoint when \<open>|f(mid)| < 10\<^sup>-\<^sup>8\<close>, move \<open>hi\<close> when \<open>f(lo) \<cdot> f(mid) \<le> 0\<close> and \<open>lo\<close>
  otherwise, and the midpoint of the final bracket when the budget is exhausted.
\<close>

theorem irr_refines_reference: "irr E cashflows = irr_ref E cashflows"
  using irr_loop_bisect[of 0 "\<lambda>r. npv E r cashflows"]
  by (simp add: irr_def irr_ret_def irr_ref_def expand_def Let_def)

theorem irr_refines_reference_witness:
  "\<forall>E. irr E [Num 100, Num 50, Num 50] = irr_ref E [Num 100, Num 50, Num 50]"
  using irr_refines_reference [where cashflows = "[Num 100, Num 50, Num 50]"] by simp


section \<open>The bracket of the root finder\<close>

lemma between_finite:
  "Num a \<le> x \<Longrightarrow> x \<le> Num b \<Longrightarrow> isFinite x \<and> a \<le> val x \<and> val x \<le> b"
  by (cases x) simp_all

lemma rnd_between:
  assumes "a \<le> q" "q \<le> b" "rnd a = Num a" "rnd b = Num b"
  shows "isFinite (rnd q) \<and> a \<le> val (rnd q) \<and> val (rnd q) \<le> b"
proof -
  have "Num a \<le> rnd q" using rnd_mono[OF assms(1)] assms(3) by simp
  moreover have "rnd q \<le> Num b" using rnd_mono[OF assms(2)] assms(4) by simp
  ultimately show ?thesis by (rule between_finite)
qed

lemma lo_literal: "- rnd (9999 / 10000) = Num (- (4503149267407759 / 4503599627370496))"
  by (simp add: rnd_eval)

lemma add_in_range:
  assumes "in_range x" "in_range y"
  shows "isFinite (x + y) \<and> - (4503149267407759 / 2251799813685248) \<le> val (x + y) \<and> val (x + y) \<le> 100"
proof (cases "x = NegZero \<and> y = NegZero")
  case True
  then show ?thesis by simp
next
  case False
  have fin: "isFinite x" "isFinite y" using assms by (simp_all add: in_range_def)
  have s: "x + y = rnd (val x + val y)"
    using False fin by (cases x; cases y) simp_all
  have b: "- (4503149267407759 / 2251799813685248) \<le> val x + val y" "val x + val y \<le> 100"
    using assms by (simp_all add: in_range_def)
  have r1: "rnd (- (4503149267407759 / 2251799813685248)) = Num (- (4503149267407759 / 2251799813685248))"
    by (simp add: rnd_eval)
  have r2: "rnd 100 = Num 100"
    by (simp add: rnd_eval)
  show ?thesis unfolding s using rnd_between[OF b r1 r2] .
qed

lemma half_in_range:
  assumes "isFinite x" "- (4503149267407759 / 2251799813685248) \<le> val x" "val x \<le> 100"
  shows "in_range (x / Num 2)"
proof (cases "val x = 0")
  case True
  then show ?thesis using assms(1)
    by (cases x) (simp_all add: divide_jsnum_def zero_of_def in_range_def)
next
  case False
  have s: "x / Num 2 = rnd (val x / 2)"
    using False assms(1) by (cases x) (simp_all add: divide_jsnum_def)
  have b: "- (4503149267407759 / 4503599627370496) \<le> val x / 2" "val x / 2 \<le> 50"
    using assms by simp_all
  have r1: "rnd (- (4503149267407759 / 4503599627370496)) = Num (- (4503149267407759 / 4503599627370496))"
    by (simp add: rnd_eval)
  have r2: "rnd 50 = Num 50"
    by (simp add: rnd_eval)
  show ?thesis unfolding s in_range_def using rnd_between[OF b r1 r2] .
qed

lemma midpoint_in_range:
  assumes "in_range lo" "in_range hi"
  shows "in_range ((lo + hi) / Num 2)"
  using add_in_range[OF assms] by (intro half_in_range) simp_all

lemma irr_loop_in_range:
  assumes "in_range lo" "in_range hi" "isFinite (returned (irr_loop f i lo hi flo fhi))"
  shows "in_range (returned (irr_loop f i lo hi flo fhi))"
  using assms
proof (induction f i lo hi flo fhi rule: irr_loop.induct)
  case (1 f i lo hi flo fhi)
  have m: "in_range ((lo + hi) / Num 2)" using 1(3,4) by (rule midpoint_in_range)
  show ?case
  proof (cases "i < 120")
    case False
    then show ?thesis using m by (subst irr_loop.simps) simp
  next
    case True
    let ?mid = "(lo + hi) / Num 2"
    consider (nf) "\<not> isFinite (f ?mid)"
      | (conv) "isFinite (f ?mid)" "\<bar>f ?mid\<bar> < rnd (1 / 10 ^ 8)"
      | (left) "isFinite (f ?mid)" "\<not> \<bar>f ?mid\<bar> < rnd (1 / 10 ^ 8)" "flo * f ?mid \<le> 0"
      | (right) "isFinite (f ?mid)" "\<not> \<bar>f ?mid\<bar> < rnd (1 / 10 ^ 8)" "\<not> flo * f ?mid \<le> 0"
      by blast
    then show ?thesis
    proof cases
      case nf
      then show ?thesis using True 1(5) by (subst (asm) irr_loop.simps) (simp add: Let_def)
    next
      case conv
      then show ?thesis using True m by (subst irr_loop.simps) (simp add: Let_def)
    next
      case left
      have eq: "irr_loop f i lo hi flo fhi = irr_loop f (i + 1) lo ?mid flo (f ?mid)"
        using True left by (subst irr_loop.simps) (simp add: Let_def)
      show ?thesis unfolding eq
        using 1(1)[OF True refl refl _ _ left(3) 1(3) m] left 1(5) eq by simp
    next
      case right
      have eq: "irr_loop f i lo hi flo fhi = irr_loop f (i + 1) ?mid hi (f ?mid) fhi"
        using True right by (subst irr_loop.simps) (simp add: Let_def)
      show ?thesis unfolding eq
        using 1(2)[OF True refl refl _ _ right(3) m 1(4)] right 1(5) eq by simp
    qed
  qed
qed

lemma in_range_bounds:
  assumes "in_range r"
  shows "- rnd (9999 / 10000) \<le> r \<and> r \<le> Num 50"
  using assms unfolding lo_literal in_range_def by (cases r) simp_all

lemma in_range_lo: "in_range (- rnd (9999 / 10000))"
  unfolding lo_literal by (simp add: in_range_def)

lemma in_range_10: "in_range (Num 10)"
  by (simp add: in_range_def)

lemma in_range_50: "in_range (Num 50)"
  by (simp add: in_range_def)

lemma irr_ret_in_range:
  assumes "isFinite (returned (irr_ret E S))"
  shows "in_range (returned (irr_ret E S))"
proof -
  let ?f = "\<lambda>r. npv E r S"
  let ?lo = "- rnd (9999 / 10000)"
  have l: "isFinite (returned (irr_loop ?f 0 ?lo hi flo fhi)) \<Longrightarrow> in_range hi \<Longrightarrow>
      in_range (returned (irr_loop ?f 0 ?lo hi flo fhi))" for hi flo fhi
    using irr_loop_in_range[OF in_range_lo] by blast
  show ?thesis
    using assms l in_range_lo in_range_10 in_range_50
    by (auto simp add: irr_ret_def Let_def split: if_splits)
qed

text \<open>
  Doubling a binary64 number is exact below the overflow threshold, so the sum of the two
  ends of a bracket lies between their doubles and the midpoint between the ends.
\<close>

lemma rnd_mag_twice:
  assumes "0 < a" "rnd_mag a = a"
  shows "rnd_mag (2 * a) = 2 * a"
proof -
  define e where "e = max (expo a) (- 1022)"
  define m where "m = rhe (a / spacing a)"
  have a: "a = 2 powi (e - 52) * of_int m"
    using assms(2) by (simp add: rnd_mag_def spacing_def e_def m_def)
  have "2 powi (expo a) \<le> a" using assms(1) by (rule expo_lower)
  then have "2 powi (expo a) * 2 powi 1 \<le> 2 * a" by simp
  then have l: "2 powi (expo a + 1) \<le> 2 * a" by (simp only: powi2_mult)
  have "a < 2 powi (expo a + 1)" using assms(1) by (rule expo_upper)
  then have "2 * a < 2 powi (expo a + 1) * 2 powi 1" by simp
  then have u: "2 * a < 2 powi (expo a + 1 + 1)" by (simp only: powi2_mult)
  have x: "expo (2 * a) = expo a + 1" using l u by (rule expo_unique)
  show ?thesis
  proof (cases "- 1022 \<le> expo a")
    case True
    then have e': "max (expo (2 * a)) (- 1022) = e + 1" by (simp add: x e_def)
    have "2 * a = 2 powi 1 * 2 powi (e - 52) * of_int m" using a by simp
    also have "\<dots> = 2 powi (1 + (e - 52)) * of_int m" by (simp only: powi2_mult)
    finally have "2 * a = 2 powi (e + 1 - 52) * of_int m" by (simp add: add.commute)
    with e' show ?thesis by (rule rnd_mag_fixed)
  next
    case False
    then have e': "max (expo (2 * a)) (- 1022) = e" by (simp add: x e_def)
    have "2 * a = 2 powi (e - 52) * of_int (2 * m)" using a by simp
    with e' show ?thesis by (rule rnd_mag_fixed)
  qed
qed

lemma rnd_twice_pos:
  assumes "rnd a = Num a" "0 < a" "a < 2 ^ 1023"
  shows "rnd (2 * a) = Num (2 * a)"
proof -
  have "rnd_mag a = a" using rnd_pos_cases[OF assms(2)] assms(1) by auto
  then have "rnd_mag (2 * a) = 2 * a" using assms(2) by (intro rnd_mag_twice)
  moreover have "2 * a < 2 ^ 1024" using assms(3) by simp
  moreover have "0 < 2 * a" using assms(2) by simp
  ultimately show ?thesis using rnd_pos_cases[of "2 * a"] by auto
qed

lemma rnd_twice:
  assumes "rnd a = Num a" "\<bar>a\<bar> < 2 ^ 1023"
  shows "rnd (2 * a) = Num (2 * a)"
proof -
  consider "a = 0" | "0 < a" | "a < 0" by linarith
  then show ?thesis
  proof cases
    case 1
    then show ?thesis by simp
  next
    case 2
    then show ?thesis using assms by (intro rnd_twice_pos) simp_all
  next
    case 3
    then have "rnd (- a) = Num (- a)" using assms(1) by (simp add: rnd_uminus)
    then have "rnd (2 * (- a)) = Num (2 * (- a))" using 3 assms(2) by (intro rnd_twice_pos) simp_all
    moreover have "rnd (2 * a) = - rnd (2 * (- a))" using 3 rnd_uminus[of "2 * (- a)"] by simp
    ultimately show ?thesis using 3 by simp
  qed
qed

lemma le_val: "x \<le> y \<Longrightarrow> isFinite x \<Longrightarrow> isFinite y \<Longrightarrow> val x \<le> val y"
  by (cases x; cases y) simp_all

lemma val_le: "isFinite x \<Longrightarrow> isFinite y \<Longrightarrow> val x \<le> val y \<Longrightarrow> x \<le> y"
  by (cases x; cases y) simp_all

lemma rnd_val: "isFinite x \<Longrightarrow> is_double x \<Longrightarrow> rnd (val x) = Num (val x)"
  by (cases x) simp_all

lemma is_double_divide: "is_double (x / y)"
  by (simp add: divide_jsnum_def zero_of_def inf_of_def Let_def is_double_rnd)

lemma sum_between:
  assumes "isFinite x" "isFinite y" "is_double x" "is_double y" "val x \<le> val y"
    and "\<bar>val x\<bar> < 2 ^ 1023" "\<bar>val y\<bar> < 2 ^ 1023"
  shows "isFinite (x + y) \<and> 2 * val x \<le> val (x + y) \<and> val (x + y) \<le> 2 * val y"
proof (cases "x = NegZero \<and> y = NegZero")
  case True
  then show ?thesis by simp
next
  case False
  have s: "x + y = rnd (val x + val y)"
    using False assms(1,2) by (cases x; cases y) simp_all
  have b: "2 * val x \<le> val x + val y" "val x + val y \<le> 2 * val y"
    using assms(5) by simp_all
  have r1: "rnd (2 * val x) = Num (2 * val x)"
    using rnd_val[OF assms(1,3)] assms(6) by (rule rnd_twice)
  have r2: "rnd (2 * val y) = Num (2 * val y)"
    using rnd_val[OF assms(2,4)] assms(7) by (rule rnd_twice)
  show ?thesis unfolding s using rnd_between[OF b r1 r2] .
qed

lemma half_between:
  assumes "isFinite s" "2 * a \<le> val s" "val s \<le> 2 * b" "rnd a = Num a" "rnd b = Num b"
  shows "isFinite (s / Num 2) \<and> a \<le> val (s / Num 2) \<and> val (s / Num 2) \<le> b"
proof (cases "val s = 0")
  case True
  then show ?thesis using assms(1,2,3)
    by (cases s) (simp_all add: divide_jsnum_def zero_of_def)
next
  case False
  have s: "s / Num 2 = rnd (val s / 2)"
    using False assms(1) by (cases s) (simp_all add: divide_jsnum_def)
  have b: "a \<le> val s / 2" "val s / 2 \<le> b"
    using assms(2,3) by simp_all
  show ?thesis unfolding s using rnd_between[OF b assms(4,5)] .
qed

lemma in_range_magnitude: "in_range x \<Longrightarrow> \<bar>val x\<bar> < 2 ^ 1023"
proof -
  assume "in_range x"
  then have "\<bar>val x\<bar> \<le> 50" by (simp add: in_range_def abs_le_iff)
  moreover have "(50::rat) < 2 ^ 6" by simp
  moreover have "(2::rat) ^ 6 \<le> 2 ^ 1023" by (rule power_increasing) simp_all
  ultimately show ?thesis by linarith
qed

lemma midpoint_between:
  assumes "in_range lo" "in_range hi" "is_double lo" "is_double hi" "lo \<le> hi"
  shows "lo \<le> (lo + hi) / Num 2 \<and> (lo + hi) / Num 2 \<le> hi"
proof -
  have fin: "isFinite lo" "isFinite hi" using assms(1,2) by (simp_all add: in_range_def)
  have le: "val lo \<le> val hi" using assms(5) fin by (rule le_val)
  have s: "isFinite (lo + hi) \<and> 2 * val lo \<le> val (lo + hi) \<and> val (lo + hi) \<le> 2 * val hi"
    using fin assms(3,4) le in_range_magnitude[OF assms(1)] in_range_magnitude[OF assms(2)]
    by (rule sum_between)
  have "isFinite ((lo + hi) / Num 2) \<and> val lo \<le> val ((lo + hi) / Num 2)
      \<and> val ((lo + hi) / Num 2) \<le> val hi"
    using s rnd_val[OF fin(1) assms(3)] rnd_val[OF fin(2) assms(4)]
    by (intro half_between) simp_all
  then show ?thesis using fin by (simp add: val_le)
qed

lemma le_jsnum_trans: "x \<le> y \<Longrightarrow> y \<le> z \<Longrightarrow> x \<le> (z::jsnum)"
  by (cases x; cases y; cases z) simp_all

text \<open>The number returned by the loop lies in the bracket the loop is entered with.\<close>

lemma irr_loop_within:
  assumes "in_range lo" "in_range hi" "is_double lo" "is_double hi" "lo \<le> hi"
    and "isFinite (returned (irr_loop f i lo hi flo fhi))"
  shows "lo \<le> returned (irr_loop f i lo hi flo fhi)
       \<and> returned (irr_loop f i lo hi flo fhi) \<le> hi"
  using assms
proof (induction f i lo hi flo fhi rule: irr_loop.induct)
  case (1 f i lo hi flo fhi)
  let ?mid = "(lo + hi) / Num 2"
  have b: "lo \<le> ?mid \<and> ?mid \<le> hi" using 1(3-7) by (rule midpoint_between)
  have m: "in_range ?mid" using 1(3,4) by (rule midpoint_in_range)
  have d: "is_double ?mid" by (rule is_double_divide)
  show ?case
  proof (cases "i < 120")
    case False
    then show ?thesis using b by (subst (1 2) irr_loop.simps) simp
  next
    case True
    consider (nf) "\<not> isFinite (f ?mid)"
      | (conv) "isFinite (f ?mid)" "\<bar>f ?mid\<bar> < rnd (1 / 10 ^ 8)"
      | (left) "isFinite (f ?mid)" "\<not> \<bar>f ?mid\<bar> < rnd (1 / 10 ^ 8)" "flo * f ?mid \<le> 0"
      | (right) "isFinite (f ?mid)" "\<not> \<bar>f ?mid\<bar> < rnd (1 / 10 ^ 8)" "\<not> flo * f ?mid \<le> 0"
      by blast
    then show ?thesis
    proof cases
      case nf
      then show ?thesis using True 1(8) by (subst (asm) irr_loop.simps) (simp add: Let_def)
    next
      case conv
      then show ?thesis using True b by (subst (1 2) irr_loop.simps) (simp add: Let_def)
    next
      case left
      have eq: "irr_loop f i lo hi flo fhi = irr_loop f (i + 1) lo ?mid flo (f ?mid)"
        using True left by (subst irr_loop.simps) (simp add: Let_def)
      have "lo \<le> returned (irr_loop f (i + 1) lo ?mid flo (f ?mid))
          \<and> returned (irr_loop f (i + 1) lo ?mid flo (f ?mid)) \<le> ?mid"
        using 1(1)[OF True refl refl _ _ left(3) 1(3) m 1(5) d] left b 1(8) eq by simp
      then show ?thesis unfolding eq using b le_jsnum_trans by blast
    next
      case right
      have eq: "irr_loop f i lo hi flo fhi = irr_loop f (i + 1) ?mid hi (f ?mid) fhi"
        using True right by (subst irr_loop.simps) (simp add: Let_def)
      have "?mid \<le> returned (irr_loop f (i + 1) ?mid hi (f ?mid) fhi)
          \<and> returned (irr_loop f (i + 1) ?mid hi (f ?mid) fhi) \<le> hi"
        using 1(2)[OF True refl refl _ _ right(3) m 1(4) d 1(6)] right b 1(8) eq by simp
      then show ?thesis unfolding eq using b le_jsnum_trans by blast
    qed
  qed
qed


lemma is_double_lo: "is_double (- rnd (9999 / 10000))"
  unfolding lo_literal by (simp add: rnd_eval)

lemma is_double_10: "is_double (Num 10)"
  by (simp add: rnd_eval)

lemma lo_le_10: "- rnd (9999 / 10000) \<le> Num 10"
  unfolding lo_literal by simp

lemma irr_ret_not_widened:
  assumes "isFinite (returned (irr_ret E S))"
    and "\<not> 0 < npv E (- rnd (9999 / 10000)) S * npv E (Num 10) S"
  shows "returned (irr_ret E S) \<le> Num 10"
proof -
  let ?f = "\<lambda>r. npv E r S"
  let ?lo = "- rnd (9999 / 10000)"
  have l: "isFinite (returned (irr_loop ?f 0 ?lo (Num 10) flo fhi)) \<Longrightarrow>
      returned (irr_loop ?f 0 ?lo (Num 10) flo fhi) \<le> Num 10" for flo fhi
    using irr_loop_within[OF in_range_lo in_range_10 is_double_lo is_double_10 lo_le_10]
    by blast
  show ?thesis
    using assms l lo_le_10
    by (auto simp add: irr_ret_def Let_def split: if_splits)
qed

text \<open>
  Claim C10.  Whenever \<^verbatim>\<open>irr\<close> returns a finite number, that number lies in the closed
  interval from \<^verbatim>\<open>-0.9999\<close> to 50, and in the interval from \<^verbatim>\<open>-0.9999\<close> to 10 when the
  bracket is not widened (the test \<^verbatim>\<open>flo * fhi > 0\<close> fails).  The bracket only shrinks: for
  binary64 numbers \<open>lo \<le> hi\<close> of that interval the midpoint \<^verbatim>\<open>(lo + hi) / 2\<close>, which becomes
  the new \<^verbatim>\<open>lo\<close> or the new \<^verbatim>\<open>hi\<close>, lies between them, and so does the finite number that
  the loop entered with \<open>lo\<close> and \<open>hi\<close> returns, at whatever iteration it is entered.
\<close>

theorem irr_within_bracket:
  "(isFinite (irr E S) \<longrightarrow> - rnd (9999 / 10000) \<le> irr E S \<and> irr E S \<le> Num 50)
   \<and> (isFinite (irr E S) \<and> \<not> 0 < npv E (- rnd (9999 / 10000)) S * npv E (Num 10) S
        \<longrightarrow> irr E S \<le> Num 10)
   \<and> (in_range lo \<and> in_range hi \<and> is_double lo \<and> is_double hi \<and> lo \<le> hi \<longrightarrow>
        lo \<le> (lo + hi) / Num 2 \<and> (lo + hi) / Num 2 \<le> hi
        \<and> (isFinite (returned (irr_loop f i lo hi flo fhi)) \<longrightarrow>
             lo \<le> returned (irr_loop f i lo hi flo fhi)
             \<and> returned (irr_loop f i lo hi flo fhi) \<le> hi))"
proof (intro conjI impI)
  assume "isFinite (irr E S)"
  then have "in_range (irr E S)" using irr_ret_in_range[of E S] by (simp add: irr_def)
  then show "- rnd (9999 / 10000) \<le> irr E S" "irr E S \<le> Num 50"
    using in_range_bounds[of "irr E S"] by simp_all
next
  assume "isFinite (irr E S) \<and> \<not> 0 < npv E (- rnd (9999 / 10000)) S * npv E (Num 10) S"
  then show "irr E S \<le> Num 10" using irr_ret_not_widened[of E S] by (simp add: irr_def)
next
  assume h: "in_range lo \<and> in_range hi \<and> is_double lo \<and> is_double hi \<and> lo \<le> hi"
  then show "lo \<le> (lo + hi) / Num 2" "(lo + hi) / Num 2 \<le> hi"
    using midpoint_between[of lo hi] by simp_all
  assume "isFinite (returned (irr_loop f i lo hi flo fhi))"
  then show "lo \<le> returned (irr_loop f i lo hi flo fhi)"
    "returned (irr_loop f i lo hi flo fhi) \<le> hi"
    using h irr_loop_within[of lo hi f i flo fhi] by simp_all
qed

theorem irr_within_bracket_witness:
  "\<forall>E. isFinite (irr E [Num (- 1), Num (3096252891314887 / 562949953421312)])
   \<and> - rnd (9999 / 10000) \<le> irr E [Num (- 1), Num (3096252891314887 / 562949953421312)]
   \<and> irr E [Num (- 1), Num (3096252891314887 / 562949953421312)] \<le> Num 50
   \<and> \<not> 0 < npv E (- rnd (9999 / 10000)) [Num (- 1), Num (3096252891314887 / 562949953421312)]
          * npv E (Num 10) [Num (- 1), Num (3096252891314887 / 562949953421312)]
   \<and> irr E [Num (- 1), Num (3096252891314887 / 562949953421312)] \<le> Num 10
   \<and> in_range (- rnd (9999 / 10000)) \<and> in_range (Num 10)
   \<and> is_double (- rnd (9999 / 10000)) \<and> is_double (Num 10)
   \<and> - rnd (9999 / 10000) \<le> Num 10
   \<and> - rnd (9999 / 10000) \<le> (- rnd (9999 / 10000) + Num 10) / Num 2
   \<and> (- rnd (9999 / 10000) + Num 10) / Num 2 \<le> Num 10
   \<and> isFinite (returned (irr_loop
        (\<lambda>r. npv E r [Num (- 1), Num (3096252891314887 / 562949953421312)]) 0
        (- rnd (9999 / 10000)) (Num 10) (Num 1) (Num (- 1))))
   \<and> - rnd (9999 / 10000) \<le> returned (irr_loop
        (\<lambda>r. npv E r [Num (- 1), Num (3096252891314887 / 562949953421312)]) 0
        (- rnd (9999 / 10000)) (Num 10) (Num 1) (Num (- 1)))
   \<and> returned (irr_loop
        (\<lambda>r. npv E r [Num (- 1), Num (3096252891314887 / 562949953421312)]) 0
        (- rnd (9999 / 10000)) (Num 10) (Num 1) (Num (- 1))) \<le> Num 10"
  (is "\<forall>E. ?P E")
proof
  fix E
  let ?S = "[Num (- 1), Num (3096252891314887 / 562949953421312)]"
  let ?lo = "- rnd (9999 / 10000)"
  let ?f = "\<lambda>r. npv E r ?S"
  have "irr E ?S = Num (2533302937893575 / 562949953421312)"
    by (simp add: irr_def irr_ret_def irr_loop.simps npv_pair js_eval cong: let_weak_cong)
  then have a: "isFinite (irr E ?S)" by simp
  have b: "\<not> 0 < npv E ?lo ?S * npv E (Num 10) ?S"
    by (simp add: npv_pair js_eval cong: let_weak_cong)
  have c: "in_range ?lo \<and> in_range (Num 10) \<and> is_double ?lo \<and> is_double (Num 10)
      \<and> ?lo \<le> Num 10"
    using in_range_lo in_range_10 is_double_lo is_double_10 lo_le_10 by blast
  have "irr_loop ?f 0 ?lo (Num 10) (Num 1) (Num (- 1))
      = Return_root (Num (2533302937893575 / 562949953421312))"
    by (simp add: irr_loop.simps npv_pair js_eval cong: let_weak_cong)
  then have d: "isFinite (returned (irr_loop ?f 0 ?lo (Num 10) (Num 1) (Num (- 1))))"
    by simp
  show "?P E"
    using a b c d
      irr_within_bracket [where S = ?S and lo = ?lo and hi = "Num 10" and f = ?f and i = 0
        and flo = "Num 1" and fhi = "Num (- 1)" and E = E]
    by blast
qed


section \<open>The payback period and its reference definition\<close>

lemma zero_plus_negative:
  assumes "\<not> 0 \<le> x" "is_double x"
  shows "0 + x = x"
  using assms by (cases x) (simp_all add: zero_jsnum_def)

lemma fraction_unit:
  assumes "\<not> 0 \<le> prev" "0 \<le> prev + cf" "is_double prev" "is_double cf"
  shows "0 \<le> (0 - prev) / cf \<and> (0 - prev) / cf \<le> 1"
proof -
  obtain p where prev: "prev = Num p" and p: "p < 0"
    using assms(1,2) by (cases prev; cases cf) (auto simp add: zero_jsnum_def)
  have rp: "rnd p = Num p" using assms(3) prev by simp
  have np: "0 - prev = Num (- p)"
    using p rp rnd_uminus[of p] by (simp add: prev minus_jsnum_def zero_jsnum_def)
  consider (inf) "cf = PosInf" | (num) c where "cf = Num c"
    using assms(2) p by (cases cf) (simp_all add: prev rp zero_jsnum_def)
  then show ?thesis
  proof cases
    case inf
    show ?thesis unfolding np inf
      by (simp add: divide_jsnum_def zero_of_def zero_jsnum_def one_jsnum_def)
  next
    case num
    have rc: "rnd c = Num c" using assms(4) num by simp
    have "\<not> p + c < 0"
      using assms(2) rnd_negative_sum[OF rp rc] by (auto simp add: prev num)
    then have c: "- p \<le> c" "0 < c" using p by simp_all
    have f: "Num (- p) / Num c = rnd (- p / c)"
      using p c by (simp add: divide_jsnum_def)
    have "0 \<le> - p / c" using p c by (intro divide_nonneg_pos) simp_all
    moreover have "- p / c \<le> 1" using c by (simp only: divide_le_eq_1_pos)
    ultimately have "0 \<le> - p / c" "- p / c \<le> 1" by simp_all
    then have "rnd 0 \<le> rnd (- p / c)" "rnd (- p / c) \<le> rnd 1"
      by (simp_all only: rnd_mono)
    then show ?thesis unfolding np num f by (simp add: zero_jsnum_def one_jsnum_def)
  qed
qed

lemma cumulative_0: "S \<noteq> [] \<Longrightarrow> cumulative S 0 = 0 + S ! 0"
  by (cases S) (simp_all add: cumulative_def)

lemma cumulative_step:
  assumes "1 \<le> t" "t < length S"
  shows "cumulative S t = cumulative S (t - 1) + S ! t"
proof -
  have "take (t + 1) S = take t S @ [S ! t]"
    using assms(2) by (simp add: take_Suc_conv_app_nth)
  then show ?thesis using assms(1) by (simp add: cumulative_def)
qed

lemma is_double_cumulative: "t < length S \<Longrightarrow> is_double (cumulative S t)"
  by (cases "t = 0") (simp_all add: cumulative_0 cumulative_step is_double_plus)

lemma paybackPeriod_loop_find:
  assumes "1 \<le> t" "t \<le> length S"
  shows "paybackPeriod_loop S t (cumulative S (t - 1)) =
    (case find (\<lambda>t. 0 \<le> cumulative S t) [t..<length S] of
       None \<Rightarrow> NaN
     | Some t' \<Rightarrow> Num (of_nat (t' - 1)) + fraction S t')"
  using assms
proof (induction "length S - t" arbitrary: t)
  case 0
  then show ?case by (subst paybackPeriod_loop.simps) simp
next
  case (Suc n)
  then have lt: "t < length S" by simp
  have u: "[t..<length S] = t # [t + 1..<length S]" using lt by (simp add: upt_conv_Cons)
  have c: "cumulative S (t - 1) + S ! t = cumulative S t"
    using cumulative_step[OF Suc(3) lt] by simp
  show ?case
  proof (cases "0 \<le> cumulative S t")
    case True
    then show ?thesis using lt Suc(3) c
      by (subst paybackPeriod_loop.simps) (simp add: u Let_def fraction_def)
  next
    case False
    have "paybackPeriod_loop S t (cumulative S (t - 1)) = paybackPeriod_loop S (t + 1) (cumulative S t)"
      using lt False c by (subst paybackPeriod_loop.simps) (simp add: Let_def)
    also have "\<dots> = (case find (\<lambda>t. 0 \<le> cumulative S t) [t + 1..<length S] of
       None \<Rightarrow> NaN | Some t' \<Rightarrow> Num (of_nat (t' - 1)) + fraction S t')"
      using Suc(1)[of "t + 1"] Suc(2) lt by simp
    finally show ?thesis using False by (simp add: u)
  qed
qed

lemma paybackPeriod_eq_ref:
  assumes "S \<noteq> [] \<longrightarrow> is_double (S ! 0)"
  shows "paybackPeriod S = payback_ref S"
proof (cases "S = [] \<or> 0 \<le> S ! 0")
  case True
  then show ?thesis by (auto simp add: paybackPeriod_def payback_ref_def Let_def)
next
  case False
  then have ne: "S \<noteq> []" and neg: "\<not> 0 \<le> S ! 0" by simp_all
  have d: "is_double (S ! 0)" using assms ne by simp
  have c0: "cumulative S 0 = S ! 0" using cumulative_0[OF ne] zero_plus_negative[OF neg d] by simp
  have len: "1 \<le> length S" using ne by (cases S) simp_all
  have "paybackPeriod_loop S 0 0 = paybackPeriod_loop S 1 (cumulative S 0)"
    using ne neg c0 cumulative_0[OF ne]
    by (subst paybackPeriod_loop.simps) (simp add: Let_def)
  also have "\<dots> = (case first_recovery S of None \<Rightarrow> NaN
       | Some t' \<Rightarrow> Num (of_nat (t' - 1)) + fraction S t')"
    using paybackPeriod_loop_find[of 1 S] len by (simp add: first_recovery_def)
  finally show ?thesis using ne neg
    by (simp add: paybackPeriod_def payback_ref_def Let_def)
qed

lemma fraction_in_unit_interval:
  assumes "\<forall>x\<in>set S. is_double x" "S \<noteq> []" "\<not> 0 \<le> S ! 0" "first_recovery S = Some t"
  shows "0 \<le> fraction S t \<and> fraction S t \<le> 1"
proof -
  from assms(4) have f: "find (\<lambda>t. 0 \<le> cumulative S t) [1..<length S] = Some t"
    by (simp add: first_recovery_def)
  then obtain i where i: "i < length [1..<length S]" "0 \<le> cumulative S ([1..<length S] ! i)"
    "t = [1..<length S] ! i" "\<forall>j<i. \<not> 0 \<le> cumulative S ([1..<length S] ! j)"
    unfolding find_Some_iff by blast
  have t: "1 \<le> t" "t < length S" "t = 1 + i" using i(1,3) by simp_all
  have rec: "0 \<le> cumulative S t" using i(2,3) by simp
  have prev: "\<not> 0 \<le> cumulative S (t - 1)"
  proof (cases "i = 0")
    case True
    have "cumulative S 0 = S ! 0"
      using cumulative_0[OF assms(2)] zero_plus_negative[OF assms(3)] assms(1,2) by simp
    then show ?thesis using True t assms(3) by simp
  next
    case False
    then have "i - 1 < i" by simp
    then have "\<not> 0 \<le> cumulative S ([1..<length S] ! (i - 1))" using i(4) by blast
    moreover have "[1..<length S] ! (i - 1) = t - 1" using False i(1) t by simp
    ultimately show ?thesis by simp
  qed
  have d1: "is_double (cumulative S (t - 1))" using t by (intro is_double_cumulative) simp
  have d2: "is_double (S ! t)" using assms(1) t by simp
  have s: "0 \<le> cumulative S (t - 1) + S ! t" using rec cumulative_step[OF t(1,2)] by simp
  show ?thesis unfolding fraction_def using fraction_unit[OF prev s d1 d2] .
qed

text \<open>
  Claim C5.  On a series of binary64 numbers \<^verbatim>\<open>paybackPeriod\<close> equals the reference
  definition: NaN for the empty series; 0 when element 0 is \<open>\<ge> 0\<close>; otherwise, with \<open>t \<ge> 1\<close>
  the first period at which the cumulative total is \<open>\<ge> 0\<close>, the value
  \<open>(t - 1) + (0 - prev) / cf\<^sub>t\<close>, where \<open>prev\<close> is the cumulative total before period \<open>t\<close>,
  and NaN when there is no such period.  The fraction \<open>(0 - prev) / cf\<^sub>t\<close> lies between 0
  and 1.
\<close>

theorem paybackPeriod_reference:
  assumes "\<forall>x\<in>set S. is_double x"
  shows "paybackPeriod S = payback_ref S
    \<and> (\<forall>t. S \<noteq> [] \<and> \<not> 0 \<le> S ! 0 \<and> first_recovery S = Some t
          \<longrightarrow> 0 \<le> fraction S t \<and> fraction S t \<le> 1)"
  using assms paybackPeriod_eq_ref[of S] fraction_in_unit_interval[of S] by simp

theorem paybackPeriod_reference_witness:
  "is_double (Num (- 100)) \<and> is_double (Num 40)
   \<and> paybackPeriod [Num (- 100), Num 40, Num 40, Num 40] = Num (5 / 2)
   \<and> payback_ref [Num (- 100), Num 40, Num 40, Num 40] = Num (5 / 2)
   \<and> first_recovery [Num (- 100), Num 40, Num 40, Num 40] = Some 3
   \<and> 0 \<le> fraction [Num (- 100), Num 40, Num 40, Num 40] 3
   \<and> fraction [Num (- 100), Num 40, Num 40, Num 40] 3 \<le> 1"
proof -
  let ?S = "[Num (- 100), Num 40, Num 40, Num 40]"
  have d: "is_double (Num (- 100))" "is_double (Num 40)" by (simp_all add: rnd_eval)
  then have h: "\<forall>x\<in>set ?S. is_double x" by simp
  have v: "paybackPeriod ?S = Num (5 / 2)"
    by (simp add: paybackPeriod_def paybackPeriod_loop.simps js_eval cong: let_weak_cong)
  have f: "first_recovery ?S = Some 3"
    by (simp add: first_recovery_def cumulative_def upt_rec js_eval)
  have n: "?S \<noteq> [] \<and> \<not> 0 \<le> ?S ! 0 \<and> first_recovery ?S = Some 3"
    using f by (simp add: zero_jsnum_def)
  show ?thesis
    using d v f n paybackPeriod_reference [OF h] by simp
qed


section \<open>Building the cash-flow series\<close>

text \<open>
  The counter of the loop stays exact: a natural number below \<open>2\<^sup>5\<^sup>3\<close> is a binary64
  number, and an array never holds more than \<open>2\<^sup>3\<^sup>2 - 1\<close> elements.
\<close>

lemma rnd_of_nat:
  assumes "n < 2 ^ 53"
  shows "rnd (of_nat n) = Num (of_nat n)"
proof (cases "n = 0")
  case True
  then show ?thesis by simp
next
  case False
  define a where "a = (of_nat n :: rat)"
  define e where "e = expo a"
  have a1: "1 \<le> a" using False by (simp add: a_def)
  then have a0: "0 < a" by simp
  have "a < of_nat (2 ^ 53)" unfolding a_def using assms by (simp only: of_nat_less_iff)
  then have a53: "a < 2 ^ 53" by simp
  have "2 powi e \<le> a" unfolding e_def using a0 by (rule expo_lower)
  also have "a < 2 powi 53" using a53 by simp
  finally have e53: "e < 53" by (simp only: powi2_less_iff)
  have "2 powi 0 \<le> a" using a1 by simp
  also have "a < 2 powi (e + 1)" unfolding e_def using a0 by (rule expo_upper)
  finally have e0: "0 \<le> e" by (simp only: powi2_less_iff)
  have m: "max (expo a) (- 1022) = e" using e0 by (simp add: e_def)
  have "(2::rat) powi (e - 52) = 2 powi (- (52 - e))" by simp
  also have "\<dots> = 1 / of_int (2 ^ nat (52 - e))" using e53 by (intro powi_neg) simp
  finally have "a = 2 powi (e - 52) * of_int (int n * 2 ^ nat (52 - e))"
    by (simp add: a_def)
  with m have f: "rnd_mag a = a" by (rule rnd_mag_fixed)
  have "a < 2 ^ 1024"
  proof -
    have "(2::rat) ^ 53 \<le> 2 ^ 1024" by (rule power_increasing) simp_all
    then show ?thesis using a53 by simp
  qed
  then have "rnd a = Num a" using rnd_pos_cases[OF a0] f by auto
  then show ?thesis by (simp add: a_def)
qed

lemma counter_increment:
  assumes "n < 4294967295"
  shows "Num (of_nat n) + 1 = Num (of_nat (n + 1))"
proof -
  have "n + 1 < 2 ^ 53" using assms by simp
  then have "rnd (of_nat (n + 1)) = Num (of_nat (n + 1))" by (rule rnd_of_nat)
  then show ?thesis by (simp add: one_jsnum_def add.commute)
qed

lemma of_nat_le_iff_floor: "(of_nat t \<le> (q::rat)) = (int t \<le> \<lfloor>q\<rfloor>)"
  by (simp add: le_floor_iff)

lemma Array_push_room: "length xs < capacity E \<Longrightarrow> Array_push E xs x = Inr (xs @ [x])"
  by (simp add: Array_push_def)

lemma Array_push_full: "\<not> length xs < capacity E \<Longrightarrow> Array_push E xs x = Inl RangeError"
  by (simp add: Array_push_def)

text \<open>The loop when \<^verbatim>\<open>years\<close> is a finite number and the series fits an array.\<close>

lemma buildCashflows_loop_finite:
  assumes "length cfs + nat (\<lfloor>q\<rfloor> + 1 - int (length cfs)) \<le> capacity E"
  shows "buildCashflows_loop E (Num q) be (Num (of_nat (length cfs))) cfs
    = Inr (cfs @ replicate (nat (\<lfloor>q\<rfloor> + 1 - int (length cfs))) be)"
  using assms
proof (induction "nat (\<lfloor>q\<rfloor> + 1 - int (length cfs))" arbitrary: cfs)
  case 0
  then have "\<not> of_nat (length cfs) \<le> q" by (simp add: of_nat_le_iff_floor)
  then show ?case using 0 by (subst buildCashflows_loop.simps) simp
next
  case (Suc n)
  then have le: "of_nat (length cfs) \<le> q" by (simp add: of_nat_le_iff_floor)
  have room: "length cfs < capacity E" using Suc(2,3) by simp
  then have small: "length cfs < 4294967295" using capacity_le[of E] by simp
  have n: "n = nat (\<lfloor>q\<rfloor> + 1 - int (length (cfs @ [be])))" using Suc(2) by simp
  have fits: "length (cfs @ [be]) + nat (\<lfloor>q\<rfloor> + 1 - int (length (cfs @ [be]))) \<le> capacity E"
    using Suc(2,3) by simp
  have "buildCashflows_loop E (Num q) be (Num (of_nat (length cfs))) cfs
      = buildCashflows_loop E (Num q) be (Num (of_nat (length (cfs @ [be])))) (cfs @ [be])"
    using le by (subst buildCashflows_loop.simps)
      (simp add: Array_push_room[OF room] counter_increment[OF small])
  also have "\<dots> = Inr ((cfs @ [be]) @ replicate n be)"
    using Suc(1)[OF n fits] n by simp
  also have "(cfs @ [be]) @ replicate n be = cfs @ replicate (Suc n) be"
    by (simp add: replicate_app_Cons_same)
  finally show ?case using Suc(2) by simp
qed

text \<open>The loop when its test holds for as long as the array has room: \<^verbatim>\<open>push\<close> throws.\<close>

lemma buildCashflows_loop_full:
  assumes "Num (of_nat (capacity E)) \<le> y" and "length cfs \<le> capacity E"
  shows "buildCashflows_loop E y be (Num (of_nat (length cfs))) cfs = Inl RangeError"
  using assms(2)
proof (induction "capacity E - length cfs" arbitrary: cfs)
  case 0
  then have full: "\<not> length cfs < capacity E" and eq: "length cfs = capacity E" by simp_all
  have "Num (of_nat (length cfs)) \<le> y" using assms(1) eq by simp
  then show ?case
    by (subst buildCashflows_loop.simps) (simp add: Array_push_full[OF full])
next
  case (Suc n)
  then have room: "length cfs < capacity E" by simp
  then have small: "length cfs < 4294967295" using capacity_le[of E] by simp
  have "Num (of_nat (length cfs)) \<le> Num (of_nat (capacity E))" using room by simp
  then have le: "Num (of_nat (length cfs)) \<le> y" using assms(1) by (rule le_jsnum_trans)
  have n: "n = capacity E - length (cfs @ [be])" using Suc(2) by simp
  have "buildCashflows_loop E y be (Num (of_nat (length cfs))) cfs
      = buildCashflows_loop E y be (Num (of_nat (length (cfs @ [be])))) (cfs @ [be])"
    using le by (subst buildCashflows_loop.simps)
      (simp add: Array_push_room[OF room] counter_increment[OF small])
  also have "\<dots> = Inl RangeError" using room by (intro Suc(1)[OF n]) simp
  finally show ?case .
qed

lemma buildCashflows_first:
  assumes "0 < capacity E"
  shows "buildCashflows E p = buildCashflows_loop E (years p) (benefitEnergy p)
    (Num (of_nat (length [- (capGeo p + capInd p + capPv p) + benefitTax p])))
    [- (capGeo p + capInd p + capPv p) + benefitTax p]"
  using assms by (simp add: buildCashflows_def Array_push_def one_jsnum_def)

lemma buildCashflows_finite:
  assumes "isFinite (years p)" and "nat \<lfloor>val (years p)\<rfloor> < capacity E"
  shows "buildCashflows E p = Inr ((- (capGeo p + capInd p + capPv p) + benefitTax p)
    # replicate (nat \<lfloor>val (years p)\<rfloor>) (benefitEnergy p))"
proof -
  have c: "0 < capacity E" using assms(2) by simp
  show ?thesis
  proof (cases "years p")
    case (Num q)
    have "length [x] + nat (\<lfloor>q\<rfloor> + 1 - int (length [x])) \<le> capacity E" for x :: jsnum
      using assms(2) Num by simp
    then show ?thesis
      unfolding buildCashflows_first[OF c] Num
      by (subst buildCashflows_loop_finite) simp_all
  next
    case NegZero
    then show ?thesis
      unfolding buildCashflows_first[OF c]
      by (subst buildCashflows_loop.simps) simp
  qed (use assms(1) in simp_all)
qed

lemma buildCashflows_full:
  assumes "Num (of_nat (capacity E)) \<le> years p"
  shows "buildCashflows E p = Inl RangeError"
proof (cases "0 < capacity E")
  case True
  then show ?thesis
    unfolding buildCashflows_first[OF True]
    using assms by (intro buildCashflows_loop_full) simp_all
next
  case False
  then show ?thesis by (simp add: buildCashflows_def Array_push_def)
qed

lemma buildCashflows_returns:
  assumes "0 < capacity E"
  shows "(\<exists>cfs. buildCashflows E p = Inr cfs) = (\<not> Num (of_nat (capacity E)) \<le> years p)"
proof (cases "Num (of_nat (capacity E)) \<le> years p")
  case True
  then show ?thesis using buildCashflows_full[OF True] by simp
next
  case False
  have one: "\<not> Num (of_nat (length [x :: jsnum])) \<le> y \<Longrightarrow>
      buildCashflows_loop E y be (Num (of_nat (length [x]))) [x] = Inr [x]" for x y be
    by (subst buildCashflows_loop.simps) simp
  show ?thesis
  proof (cases "isFinite (years p)")
    case True
    then have "val (years p) < of_nat (capacity E)"
      using False by (cases "years p") simp_all
    then have "\<lfloor>val (years p)\<rfloor> < int (capacity E)" by (simp add: floor_less_iff)
    then have "nat \<lfloor>val (years p)\<rfloor> < capacity E" using assms by simp
    then show ?thesis using buildCashflows_finite[OF True] False by simp
  next
    case nf: False
    then have "\<not> Num (of_nat (length [x :: jsnum])) \<le> years p" for x
      using False by (cases "years p") simp_all
    then show ?thesis
      unfolding buildCashflows_first[OF assms] using False one by simp
  qed
qed


text \<open>
  Claim C4, as stated: for every integer \<^verbatim>\<open>years\<close> \<open>\<ge> 1\<close> the series has \<^verbatim>\<open>years + 1\<close>
  elements.  It fails for \<^verbatim>\<open>years = 4294967295\<close>: no array holds \<open>2\<^sup>3\<^sup>2\<close> elements, and on
  every engine the loop ends with the \<^verbatim>\<open>RangeError\<close> of \<^verbatim>\<open>push\<close>.
\<close>

theorem buildCashflows_series_counterexample:
  "(1::int) \<le> 4294967295
   \<and> (\<forall>E. buildCashflows E \<lparr>capGeo = Num 4314, capInd = Num 2331, capPv = Num 0,
          benefitTax = Num 4818, benefitEnergy = Num 337, years = Num (of_int 4294967295)\<rparr>
        = Inl RangeError)"
proof -
  have "Num (of_nat (capacity E)) \<le> Num (of_int 4294967295)" for E
    using capacity_le[of E] by simp
  then show ?thesis by (simp add: buildCashflows_full)
qed

text \<open>
  Claim C4, amended.  When \<^verbatim>\<open>years\<close> is an integer \<open>n \<ge> 1\<close> and an array of the engine
  holds \<open>n + 1\<close> elements, \<^verbatim>\<open>buildCashflows\<close> returns a series of length \<open>n + 1\<close> whose
  element 0 is \<^verbatim>\<open>-(capGeo + capInd + capPv) + benefitTax\<close> and whose elements \<open>1, \<dots>, n\<close> are
  \<^verbatim>\<open>benefitEnergy\<close>; when the array does not hold \<open>n + 1\<close> elements, it throws
  \<^verbatim>\<open>RangeError\<close>.  For the default parameters (4314, 2331, 0, tax benefit 4818, energy
  benefit 337, 25 years) and arrays of at least 26 elements the series is \<open>-1827\<close>
  followed by 25 times \<open>337\<close>.
\<close>

theorem buildCashflows_series:
  "(years p = Num (of_int n) \<and> 1 \<le> n \<and> nat n < capacity E \<longrightarrow>
      (\<exists>cfs. buildCashflows E p = Inr cfs
         \<and> length cfs = nat n + 1
         \<and> cfs ! 0 = - (capGeo p + capInd p + capPv p) + benefitTax p
         \<and> (\<forall>t. 1 \<le> t \<and> t \<le> nat n \<longrightarrow> cfs ! t = benefitEnergy p)))
   \<and> (years p = Num (of_int n) \<and> 1 \<le> n \<and> capacity E \<le> nat n \<longrightarrow>
        buildCashflows E p = Inl RangeError)
   \<and> (25 < capacity E \<longrightarrow>
        buildCashflows E \<lparr>capGeo = Num 4314, capInd = Num 2331, capPv = Num 0,
            benefitTax = Num 4818, benefitEnergy = Num 337, years = Num 25\<rparr>
          = Inr (Num (- 1827) # replicate 25 (Num 337)))"
proof (intro conjI impI)
  assume h: "years p = Num (of_int n) \<and> 1 \<le> n \<and> nat n < capacity E"
  let ?x = "- (capGeo p + capInd p + capPv p) + benefitTax p"
  have b: "buildCashflows E p = Inr (?x # replicate (nat n) (benefitEnergy p))"
    using h buildCashflows_finite[of p E] by simp
  have "\<forall>t. 1 \<le> t \<and> t \<le> nat n \<longrightarrow> (?x # replicate (nat n) (benefitEnergy p)) ! t = benefitEnergy p"
    by (auto simp add: nth_Cons')
  with b show "\<exists>cfs. buildCashflows E p = Inr cfs
         \<and> length cfs = nat n + 1
         \<and> cfs ! 0 = ?x
         \<and> (\<forall>t. 1 \<le> t \<and> t \<le> nat n \<longrightarrow> cfs ! t = benefitEnergy p)"
    by simp
next
  assume h: "years p = Num (of_int n) \<and> 1 \<le> n \<and> capacity E \<le> nat n"
  then have "int (capacity E) \<le> n" by linarith
  then have "(of_int (int (capacity E)) :: rat) \<le> of_int n" by (simp only: of_int_le_iff)
  then have "Num (of_nat (capacity E)) \<le> years p" using h by simp
  then show "buildCashflows E p = Inl RangeError" by (rule buildCashflows_full)
next
  assume "25 < capacity E"
  then show "buildCashflows E \<lparr>capGeo = Num 4314, capInd = Num 2331, capPv = Num 0,
            benefitTax = Num 4818, benefitEnergy = Num 337, years = Num 25\<rparr>
          = Inr (Num (- 1827) # replicate 25 (Num 337))"
    by (subst buildCashflows_finite) (simp_all add: rnd_eval)
qed

theorem buildCashflows_series_witness:
  "years \<lparr>capGeo = Num 4314, capInd = Num 2331, capPv = Num 0,
               benefitTax = Num 4818, benefitEnergy = Num 337, years = Num 25\<rparr> = Num (of_int 25)
   \<and> (1::int) \<le> 25 \<and> nat 25 < capacity reference_engine
   \<and> (\<exists>cfs. buildCashflows reference_engine \<lparr>capGeo = Num 4314, capInd = Num 2331,
               capPv = Num 0, benefitTax = Num 4818, benefitEnergy = Num 337, years = Num 25\<rparr>
           = Inr cfs
         \<and> length cfs = 26 \<and> cfs ! 0 = Num (- 1827) \<and> cfs ! 25 = Num 337)
   \<and> years \<lparr>capGeo = Num 4314, capInd = Num 2331, capPv = Num 0, benefitTax = Num 4818,
        benefitEnergy = Num 337, years = Num 4294967295\<rparr> = Num (of_int 4294967295)
   \<and> capacity reference_engine \<le> nat 4294967295
   \<and> buildCashflows reference_engine \<lparr>capGeo = Num 4314, capInd = Num 2331, capPv = Num 0,
        benefitTax = Num 4818, benefitEnergy = Num 337, years = Num 4294967295\<rparr>
       = Inl RangeError
   \<and> buildCashflows reference_engine \<lparr>capGeo = Num 4314, capInd = Num 2331, capPv = Num 0,
        benefitTax = Num 4818, benefitEnergy = Num 337, years = Num 25\<rparr>
       = Inr (Num (- 1827) # replicate 25 (Num 337))"
proof -
  let ?p = "\<lparr>capGeo = Num 4314, capInd = Num 2331, capPv = Num 0,
               benefitTax = Num 4818, benefitEnergy = Num 337, years = Num 25\<rparr>"
  let ?q = "\<lparr>capGeo = Num 4314, capInd = Num 2331, capPv = Num 0,
               benefitTax = Num 4818, benefitEnergy = Num 337, years = Num 4294967295\<rparr>"
  have x: "- (capGeo ?p + capInd ?p + capPv ?p) + benefitTax ?p = Num (- 1827)"
    by (simp add: rnd_eval)
  note s = buildCashflows_series [where p = ?p and n = 25 and E = reference_engine]
  note f = buildCashflows_series [where p = ?q and n = 4294967295 and E = reference_engine]
  from s obtain cfs where
    "buildCashflows reference_engine ?p = Inr cfs" "length cfs = nat 25 + 1"
    "cfs ! 0 = - (capGeo ?p + capInd ?p + capPv ?p) + benefitTax ?p"
    "\<forall>t. 1 \<le> t \<and> t \<le> nat 25 \<longrightarrow> cfs ! t = benefitEnergy ?p"
    by auto
  then have a: "\<exists>cfs. buildCashflows reference_engine ?p = Inr cfs
         \<and> length cfs = 26 \<and> cfs ! 0 = Num (- 1827) \<and> cfs ! 25 = Num 337"
    using x by auto
  have b: "buildCashflows reference_engine ?q = Inl RangeError" using f by simp
  have c: "buildCashflows reference_engine ?p = Inr (Num (- 1827) # replicate 25 (Num 337))"
    using s by simp
  show ?thesis using a b c by simp
qed

text \<open>
  Claim C6, as stated: the series has length \<^verbatim>\<open>years + 1\<close> whatever the numbers supplied,
  also for a negative or a non-integer \<^verbatim>\<open>years\<close>.  It fails: for \<^verbatim>\<open>years = -3\<close> the loop
  body never runs and the series has length 1, not \<open>-2\<close>; for \<^verbatim>\<open>years = 2.5\<close> it has
  length 3, not \<open>3.5\<close>.
\<close>

theorem buildCashflows_length_counterexample:
  "buildCashflows reference_engine \<lparr>capGeo = Num 0, capInd = Num 0, capPv = Num 0,
       benefitTax = Num 0, benefitEnergy = Num 0, years = Num (- 3)\<rparr> = Inr [Num 0]
   \<and> Num (of_nat (length [Num 0])) \<noteq> Num (- 3) + 1
   \<and> buildCashflows reference_engine \<lparr>capGeo = Num 0, capInd = Num 0, capPv = Num 0,
       benefitTax = Num 0, benefitEnergy = Num 0, years = Num (5 / 2)\<rparr>
       = Inr [Num 0, Num 0, Num 0]
   \<and> Num (of_nat (length [Num 0, Num 0, Num 0])) \<noteq> Num (5 / 2) + 1"
proof -
  have a: "Num (- 3) + 1 = Num (- 2)" "Num (5 / 2) + 1 = Num (7 / 2)"
    by (simp_all add: one_jsnum_def rnd_eval)
  have b: "buildCashflows reference_engine \<lparr>capGeo = Num 0, capInd = Num 0, capPv = Num 0,
       benefitTax = Num 0, benefitEnergy = Num 0, years = Num (- 3)\<rparr> = Inr [Num 0]"
    by (subst buildCashflows_finite) simp_all
  have c: "buildCashflows reference_engine \<lparr>capGeo = Num 0, capInd = Num 0, capPv = Num 0,
       benefitTax = Num 0, benefitEnergy = Num 0, years = Num (5 / 2)\<rparr>
       = Inr [Num 0, Num 0, Num 0]"
    by (subst buildCashflows_finite) (simp_all add: numeral_2_eq_2)
  show ?thesis by (simp add: a b c)
qed

text \<open>
  Claim C6, amended.  For every finite \<^verbatim>\<open>years\<close>, negative zero included, whatever the
  other parameters: with \<open>k\<close> the number of integers \<open>t\<close> with \<open>1 \<le> t \<le> years\<close>, that is
  \<open>k = max(0, \<lfloor>years\<rfloor>)\<close>, \<^verbatim>\<open>buildCashflows\<close> returns a series of length \<open>k + 1\<close> when an
  array of the engine holds \<open>k + 1\<close> elements, and throws \<^verbatim>\<open>RangeError\<close> when it does not.
  The length is \<^verbatim>\<open>years + 1\<close> when \<^verbatim>\<open>years\<close> is an integer \<open>\<ge> 0\<close>.
\<close>

theorem buildCashflows_length:
  "(isFinite (years p) \<and> nat \<lfloor>val (years p)\<rfloor> < capacity E \<longrightarrow>
      (\<exists>cfs. buildCashflows E p = Inr cfs
         \<and> length cfs = nat \<lfloor>val (years p)\<rfloor> + 1
         \<and> (0 \<le> val (years p) \<and> val (years p) = of_int \<lfloor>val (years p)\<rfloor> \<longrightarrow>
              Num (of_nat (length cfs)) = years p + 1)))
   \<and> (isFinite (years p) \<and> capacity E \<le> nat \<lfloor>val (years p)\<rfloor> \<longrightarrow>
        buildCashflows E p = Inl RangeError)"
proof (intro conjI impI)
  assume h: "isFinite (years p) \<and> nat \<lfloor>val (years p)\<rfloor> < capacity E"
  define k where "k = nat \<lfloor>val (years p)\<rfloor>"
  have b: "buildCashflows E p = Inr ((- (capGeo p + capInd p + capPv p) + benefitTax p)
      # replicate k (benefitEnergy p))"
    unfolding k_def using h by (intro buildCashflows_finite) simp_all
  have "Num (of_nat (k + 1)) = years p + 1"
    if i: "0 \<le> val (years p) \<and> val (years p) = of_int \<lfloor>val (years p)\<rfloor>"
  proof -
    have v: "val (years p) = of_nat k" using i by (simp add: k_def)
    have "k < 4294967295" using h capacity_le[of E] by (simp add: k_def)
    then have "Num (of_nat k) + 1 = Num (of_nat (k + 1))" by (rule counter_increment)
    moreover have "years p + 1 = Num (of_nat k) + 1"
      using h v by (cases "years p") (simp_all add: one_jsnum_def)
    ultimately show ?thesis by simp
  qed
  then show "\<exists>cfs. buildCashflows E p = Inr cfs
         \<and> length cfs = nat \<lfloor>val (years p)\<rfloor> + 1
         \<and> (0 \<le> val (years p) \<and> val (years p) = of_int \<lfloor>val (years p)\<rfloor> \<longrightarrow>
              Num (of_nat (length cfs)) = years p + 1)"
    using b by (simp add: k_def)
next
  assume h: "isFinite (years p) \<and> capacity E \<le> nat \<lfloor>val (years p)\<rfloor>"
  show "buildCashflows E p = Inl RangeError"
  proof (cases "0 < capacity E")
    case True
    then have "int (capacity E) \<le> \<lfloor>val (years p)\<rfloor>" using h by linarith
    then have "of_nat (capacity E) \<le> val (years p)" by (simp add: le_floor_iff)
    then have "Num (of_nat (capacity E)) \<le> years p"
      using h True by (cases "years p") simp_all
    then show ?thesis by (rule buildCashflows_full)
  next
    case False
    then show ?thesis by (simp add: buildCashflows_def Array_push_def)
  qed
qed

theorem buildCashflows_length_witness:
  "isFinite (years \<lparr>capGeo = Num 0, capInd = Num 0, capPv = Num 0,
       benefitTax = Num 0, benefitEnergy = Num 0, years = Num (5 / 2)\<rparr>)
   \<and> \<lfloor>5 / 2 :: rat\<rfloor> = 2 \<and> 2 < capacity reference_engine
   \<and> (\<exists>cfs. buildCashflows reference_engine \<lparr>capGeo = Num 0, capInd = Num 0, capPv = Num 0,
       benefitTax = Num 0, benefitEnergy = Num 0, years = Num (5 / 2)\<rparr> = Inr cfs
       \<and> length cfs = 3)
   \<and> isFinite (years \<lparr>capGeo = Num 0, capInd = Num 0, capPv = Num 0,
       benefitTax = Num 0, benefitEnergy = Num 0, years = NegZero\<rparr>)
   \<and> (\<exists>cfs. buildCashflows reference_engine \<lparr>capGeo = Num 0, capInd = Num 0, capPv = Num 0,
       benefitTax = Num 0, benefitEnergy = Num 0, years = NegZero\<rparr> = Inr cfs
       \<and> length cfs = 1 \<and> Num (of_nat (length cfs)) = NegZero + 1)
   \<and> isFinite (years \<lparr>capGeo = Num 0, capInd = Num 0, capPv = Num 0,
       benefitTax = Num 0, benefitEnergy = Num 0, years = Num 5000000000\<rparr>)
   \<and> capacity reference_engine \<le> nat \<lfloor>5000000000 :: rat\<rfloor>
   \<and> buildCashflows reference_engine \<lparr>capGeo = Num 0, capInd = Num 0, capPv = Num 0,
       benefitTax = Num 0, benefitEnergy = Num 0, years = Num 5000000000\<rparr> = Inl RangeError"
proof -
  let ?a = "\<lparr>capGeo = Num 0, capInd = Num 0, capPv = Num 0,
       benefitTax = Num 0, benefitEnergy = Num 0, years = Num (5 / 2)\<rparr>"
  let ?b = "\<lparr>capGeo = Num 0, capInd = Num 0, capPv = Num 0,
       benefitTax = Num 0, benefitEnergy = Num 0, years = NegZero\<rparr>"
  let ?c = "\<lparr>capGeo = Num 0, capInd = Num 0, capPv = Num 0,
       benefitTax = Num 0, benefitEnergy = Num 0, years = Num 5000000000\<rparr>"
  have a: "\<exists>cfs. buildCashflows reference_engine ?a = Inr cfs \<and> length cfs = 3"
    using buildCashflows_length [where p = ?a and E = reference_engine] by auto
  have b: "\<exists>cfs. buildCashflows reference_engine ?b = Inr cfs
       \<and> length cfs = 1 \<and> Num (of_nat (length cfs)) = NegZero + 1"
    using buildCashflows_length [where p = ?b and E = reference_engine] by auto
  have c: "buildCashflows reference_engine ?c = Inl RangeError"
    using buildCashflows_length [where p = ?c and E = reference_engine] by simp
  show ?thesis using a b c by simp
qed


section \<open>Values that are not finite\<close>

lemma nonfinite_plus_left: "\<not> isFinite s \<Longrightarrow> \<not> isFinite (s + v)"
  by (cases s; cases v) simp_all

lemma nonfinite_plus_right: "\<not> isFinite v \<Longrightarrow> \<not> isFinite (s + v)"
  by (cases s; cases v) simp_all

lemma nonfinite_divide: "\<not> isFinite x \<Longrightarrow> \<not> isFinite (x / y)"
  by (cases x) (simp_all add: divide_jsnum_def inf_of_def)

lemma divide_by_zero: "isFinite y \<Longrightarrow> val y = 0 \<Longrightarrow> \<not> isFinite (x / y)"
  by (cases x) (simp_all add: divide_jsnum_def inf_of_def)

lemma npv_loop_nonfinite_sum: "\<not> isFinite s \<Longrightarrow> \<not> isFinite (npv_loop E r S t s)"
proof (induction "length S - t" arbitrary: t s)
  case 0
  then show ?case by (subst npv_loop.simps) simp
next
  case (Suc n)
  then have lt: "t < length S" by simp
  have "\<not> isFinite (npv_loop E r S (t + 1) (s + S ! t / Math_pow E (1 + r) t))"
    using Suc(1)[of "t + 1"] Suc(2,3) by (simp add: nonfinite_plus_left)
  then show ?case using lt by (subst npv_loop.simps) simp
qed

lemma npv_loop_nonfinite_term:
  assumes "i < length S" "\<not> isFinite (S ! i / Math_pow E (1 + r) i)" "t \<le> i"
  shows "\<not> isFinite (npv_loop E r S t s)"
  using assms(3)
proof (induction "i - t" arbitrary: t s)
  case 0
  then have t: "t = i" by simp
  have "\<not> isFinite (npv_loop E r S (i + 1) (s + S ! i / Math_pow E (1 + r) i))"
    using assms(2) by (intro npv_loop_nonfinite_sum nonfinite_plus_right)
  then show ?case using assms(1) unfolding t by (subst npv_loop.simps) simp
next
  case (Suc n)
  then have lt: "t < length S" "t + 1 \<le> i" using assms(1) by simp_all
  have "\<not> isFinite (npv_loop E r S (t + 1) (s + S ! t / Math_pow E (1 + r) t))"
    using Suc(1)[of "t + 1"] Suc(2) lt by simp
  then show ?case using lt by (subst npv_loop.simps) simp
qed

lemma term_nonfinite:
  assumes "\<not> isFinite x \<or> (isFinite y \<and> val y = 0)"
  shows "\<not> isFinite (x / y)"
  using assms nonfinite_divide divide_by_zero by blast

lemma npv_nonfinite:
  assumes "t < length S"
    "\<not> isFinite (S ! t) \<or> (isFinite (Math_pow E (1 + r) t) \<and> val (Math_pow E (1 + r) t) = 0)"
  shows "\<not> isFinite (npv E r S)"
  unfolding npv_def using assms(1) term_nonfinite[OF assms(2)] by (rule npv_loop_nonfinite_term) simp

lemma irr_nonfinite_element:
  assumes "t < length S" "\<not> isFinite (S ! t)"
  shows "irr E S = NaN"
proof -
  have "\<not> isFinite (npv E (- rnd (9999 / 10000)) S)"
    using assms by (intro npv_nonfinite[of t]) simp_all
  then show ?thesis by (simp add: irr_def irr_ret_def Let_def)
qed

section \<open>The runs of the loops end\<close>

lemma index_of_nat [simp]: "index (Num (of_nat k)) = k"
  by (simp add: index_def)

lemma counter_less [simp]: "(Num (of_nat k) < Num (of_nat n)) = (k < n)"
  by simp

lemma array_index:
  assumes "length S \<le> capacity E" and "k < length S"
  shows "k < 4294967295"
  using assms capacity_le[of E] by simp

lemma run_npv_loop_ends:
  assumes "length S \<le> capacity E"
  shows "run_npv_loop E r S (Num (of_nat k)) s = Some (npv_loop E r S k s)"
proof (induction "length S - k" arbitrary: k s)
  case 0
  then show ?case
    by (subst run_npv_loop.simps, subst npv_loop.simps) simp
next
  case (Suc n)
  then have lt: "k < length S" by simp
  have c: "Num (of_nat k) + 1 = Num (of_nat (k + 1))"
    using array_index[OF assms lt] by (rule counter_increment)
  have "run_npv_loop E r S (Num (of_nat (k + 1))) s' = Some (npv_loop E r S (k + 1) s')" for s'
    using Suc(2) by (intro Suc(1)) simp
  then show ?case
    using lt by (subst run_npv_loop.simps, subst npv_loop.simps) (simp add: c)
qed

lemma run_npv_ends:
  assumes "length S \<le> capacity E"
  shows "run_npv E r S = Some (npv E r S)"
  using run_npv_loop_ends[OF assms, of r 0 0]
  by (simp add: run_npv_def npv_def zero_jsnum_def)

lemma Array_map_ends:
  assumes "length xs \<le> capacity E"
  shows "Array_map callback xs (Num (of_nat k)) out
    = Some (out @ map (\<lambda>i. callback (xs ! i) (Num (of_nat i))) [k..<length xs])"
proof (induction "length xs - k" arbitrary: k out)
  case 0
  then show ?case by (subst Array_map.simps) simp
next
  case (Suc n)
  then have lt: "k < length xs" by simp
  have c: "Num (of_nat k) + 1 = Num (of_nat (k + 1))"
    using array_index[OF assms lt] by (rule counter_increment)
  have "Array_map callback xs (Num (of_nat (k + 1))) out'
      = Some (out' @ map (\<lambda>i. callback (xs ! i) (Num (of_nat i))) [k + 1..<length xs])" for out'
    using Suc(2) by (intro Suc(1)) simp
  then show ?case
    using lt by (subst Array_map.simps) (simp add: c upt_conv_Cons)
qed

lemma discountedCashflows_by_index:
  "discountedCashflows E r S = map (\<lambda>i. S ! i / Math_pow E (1 + r) i) [0..<length S]"
  by (rule nth_equalityI) (simp_all add: discountedCashflows_def)

lemma run_discountedCashflows_ends:
  assumes "length S \<le> capacity E"
  shows "run_discountedCashflows E r S = Some (discountedCashflows E r S)"
  using Array_map_ends[OF assms, of _ 0 "[]"]
  by (simp add: run_discountedCashflows_def discountedCashflows_by_index zero_jsnum_def)

lemma run_irr_loop_ends:
  assumes "\<And>x. f x = Some (g x)"
  shows "run_irr_loop f (Num (of_nat i)) lo hi flo fhi = Some (returned (irr_loop g i lo hi flo fhi))"
proof (induction "120 - i" arbitrary: i lo hi flo fhi)
  case 0
  then have "\<not> i < 120" by simp
  then show ?case
    by (subst run_irr_loop.simps, subst irr_loop.simps) simp
next
  case (Suc n)
  then have lt: "i < 120" by simp
  have c: "Num (of_nat i) + 1 = Num (of_nat (i + 1))"
    using lt by (intro counter_increment) simp
  have ih: "run_irr_loop f (Num (of_nat (i + 1))) lo' hi' flo' fhi'
      = Some (returned (irr_loop g (i + 1) lo' hi' flo' fhi'))" for lo' hi' flo' fhi'
    using Suc(2) by (intro Suc(1)) simp
  have t: "(Num (of_nat i) < Num 120) = (i < 120)"
    using counter_less[of i 120] by simp
  show ?case
    using lt ih by (subst run_irr_loop.simps, subst irr_loop.simps)
      (simp add: assms c t Let_def)
qed

lemma run_irr_ends:
  assumes "length S \<le> capacity E"
  shows "run_irr E S = Some (irr E S)"
proof -
  have f: "run_npv E x S = Some (npv E x S)" for x using assms by (rule run_npv_ends)
  have l: "run_irr_loop (\<lambda>r. Some (npv E r S)) 0 lo hi flo fhi
      = Some (returned (irr_loop (\<lambda>r. npv E r S) 0 lo hi flo fhi))" for lo hi flo fhi
    using run_irr_loop_ends[of "\<lambda>r. Some (npv E r S)" "\<lambda>r. npv E r S" 0]
    by (simp add: zero_jsnum_def)
  show ?thesis by (simp add: run_irr_def irr_def irr_ret_def f l Let_def)
qed

lemma counter_decrement:
  assumes "0 < k" and "k < 4294967295"
  shows "Num (of_nat k) - 1 = Num (of_nat (k - 1))"
proof -
  have "k - 1 < 2 ^ 53" using assms by simp
  then have "rnd (of_nat (k - 1)) = Num (of_nat (k - 1))" by (rule rnd_of_nat)
  moreover have "(of_nat k :: rat) + - 1 = of_nat (k - 1)" using assms(1) by (simp add: of_nat_diff)
  ultimately show ?thesis using assms(1) by (simp add: minus_jsnum_def one_jsnum_def)
qed

lemma run_paybackPeriod_loop_ends:
  assumes "length S \<le> capacity E"
  shows "run_paybackPeriod_loop S (Num (of_nat k)) cum = Some (paybackPeriod_loop S k cum)"
proof (induction "length S - k" arbitrary: k cum)
  case 0
  then show ?case
    by (subst run_paybackPeriod_loop.simps, subst paybackPeriod_loop.simps) simp
next
  case (Suc n)
  then have lt: "k < length S" by simp
  have s: "k < 4294967295" using assms lt by (rule array_index)
  have c: "Num (of_nat k) + 1 = Num (of_nat (k + 1))" using s by (rule counter_increment)
  have d: "0 < k \<Longrightarrow> Num (of_nat k) - 1 = Num (of_nat (k - 1))"
    using s by (intro counter_decrement)
  have z: "strict_eq (Num (of_nat k)) 0 = (k = 0)" by (simp add: zero_jsnum_def)
  have "run_paybackPeriod_loop S (Num (of_nat (k + 1))) cum'
      = Some (paybackPeriod_loop S (k + 1) cum')" for cum'
    using Suc(2) by (intro Suc(1)) simp
  then show ?case
    using lt d by (subst run_paybackPeriod_loop.simps, subst paybackPeriod_loop.simps)
      (simp add: c z Let_def)
qed

lemma run_paybackPeriod_ends:
  assumes "length S \<le> capacity E"
  shows "run_paybackPeriod S = Some (paybackPeriod S)"
  using run_paybackPeriod_loop_ends[OF assms, of 0]
  by (simp add: run_paybackPeriod_def paybackPeriod_def zero_jsnum_def Let_def)

text \<open>A series that begins with NaN never recovers.\<close>

lemma paybackPeriod_loop_NaN: "paybackPeriod_loop S t NaN = NaN"
proof (induction "length S - t" arbitrary: t)
  case 0
  then show ?case by (subst paybackPeriod_loop.simps) simp
next
  case (Suc n)
  then have "paybackPeriod_loop S (t + 1) NaN = NaN" by simp
  then show ?case by (subst paybackPeriod_loop.simps) (simp add: zero_jsnum_def)
qed

lemma paybackPeriod_NaN:
  assumes "S \<noteq> []" and "S ! 0 = NaN"
  shows "paybackPeriod S = NaN"
proof -
  have "paybackPeriod_loop S 0 0 = paybackPeriod_loop S (0 + 1) NaN"
    using assms by (subst paybackPeriod_loop.simps) (simp add: zero_jsnum_def)
  then show ?thesis using assms by (simp add: paybackPeriod_def paybackPeriod_loop_NaN zero_jsnum_def)
qed

text \<open>
  Claim C9, as stated: every engine function returns a value on every numeric input and
  never throws, and intermediate results that are not finite reach the output as values
  that are not finite.  It fails on both counts.  With \<^verbatim>\<open>years = Infinity\<close> the test of
  the loop of \<^verbatim>\<open>buildCashflows\<close> never fails, and on every engine \<^verbatim>\<open>push\<close> ends the call
  with \<^verbatim>\<open>RangeError\<close>.  \<^verbatim>\<open>paybackPeriod([-1, Infinity])\<close> has the cumulative total \<open>+\<infinity>\<close>
  and returns 0, and \<^verbatim>\<open>npv(Infinity, [100, 40])\<close> has the divisor \<open>+\<infinity>\<close> and returns 100.
\<close>

theorem engine_total_counterexample:
  "(\<forall>E. buildCashflows E \<lparr>capGeo = Num 4314, capInd = Num 2331, capPv = Num 0,
        benefitTax = Num 4818, benefitEnergy = Num 337, years = PosInf\<rparr> = Inl RangeError)
   \<and> Num (- 1) + PosInf = PosInf
   \<and> paybackPeriod [Num (- 1), PosInf] = Num 0
   \<and> 1 + PosInf = PosInf
   \<and> (\<forall>E. npv E PosInf [Num 100, Num 40] = Num 100)"
proof -
  have a: "buildCashflows E \<lparr>capGeo = Num 4314, capInd = Num 2331, capPv = Num 0,
        benefitTax = Num 4818, benefitEnergy = Num 337, years = PosInf\<rparr> = Inl RangeError" for E
    by (rule buildCashflows_full) simp
  have b: "paybackPeriod [Num (- 1), PosInf] = Num 0"
    by (simp add: paybackPeriod_def paybackPeriod_loop.simps js_eval cong: let_weak_cong)
  have c: "npv E PosInf [Num 100, Num 40] = Num 100" for E
    by (simp add: npv_pair js_eval cong: let_weak_cong)
  show ?thesis using a b c by (simp add: one_jsnum_def)
qed

text \<open>
  Claim C9, amended.  On every series that an array of the engine holds, \<^verbatim>\<open>npv\<close>,
  \<^verbatim>\<open>discountedCashflows\<close>, \<^verbatim>\<open>irr\<close> and \<^verbatim>\<open>paybackPeriod\<close> return a value: their loops, run
  with the counter as the number it is, end.  \<^verbatim>\<open>buildCashflows\<close> returns a series exactly
  when \<^verbatim>\<open>years\<close> is NaN or below the number of elements an array holds, and throws
  \<^verbatim>\<open>RangeError\<close> otherwise.  Nothing is special-cased or clamped: an element that is not
  finite, or a divisor \<^verbatim>\<open>Math.pow(1 + rate, t)\<close> that is zero, makes element \<open>t\<close> of the
  discounted series and the net present value not finite; an element that is not finite
  makes \<^verbatim>\<open>irr\<close> return NaN; and a series that begins with NaN makes \<^verbatim>\<open>paybackPeriod\<close>
  return NaN.
\<close>

theorem engine_returns_and_propagates:
  "(length S \<le> capacity E \<longrightarrow>
        run_npv E r S = Some (npv E r S)
      \<and> run_discountedCashflows E r S = Some (discountedCashflows E r S)
      \<and> run_irr E S = Some (irr E S)
      \<and> run_paybackPeriod S = Some (paybackPeriod S))
   \<and> (0 < capacity E \<longrightarrow>
        (\<exists>cfs. buildCashflows E p = Inr cfs) = (\<not> Num (of_nat (capacity E)) \<le> years p))
   \<and> (Num (of_nat (capacity E)) \<le> years p \<longrightarrow> buildCashflows E p = Inl RangeError)
   \<and> (\<forall>t. t < length S \<and>
          (\<not> isFinite (S ! t)
           \<or> (isFinite (Math_pow E (1 + r) t) \<and> val (Math_pow E (1 + r) t) = 0))
        \<longrightarrow> \<not> isFinite (discountedCashflows E r S ! t) \<and> \<not> isFinite (npv E r S))
   \<and> (\<forall>t. t < length S \<and> \<not> isFinite (S ! t) \<longrightarrow> irr E S = NaN)
   \<and> (S \<noteq> [] \<and> S ! 0 = NaN \<longrightarrow> paybackPeriod S = NaN)"
proof (intro conjI allI impI)
  assume l: "length S \<le> capacity E"
  show "run_npv E r S = Some (npv E r S)" using l by (rule run_npv_ends)
  show "run_discountedCashflows E r S = Some (discountedCashflows E r S)"
    using l by (rule run_discountedCashflows_ends)
  show "run_irr E S = Some (irr E S)" using l by (rule run_irr_ends)
  show "run_paybackPeriod S = Some (paybackPeriod S)" using l by (rule run_paybackPeriod_ends)
next
  assume "0 < capacity E"
  then show "(\<exists>cfs. buildCashflows E p = Inr cfs) = (\<not> Num (of_nat (capacity E)) \<le> years p)"
    by (rule buildCashflows_returns)
next
  assume "Num (of_nat (capacity E)) \<le> years p"
  then show "buildCashflows E p = Inl RangeError" by (rule buildCashflows_full)
next
  fix t
  assume h: "t < length S \<and>
    (\<not> isFinite (S ! t) \<or> (isFinite (Math_pow E (1 + r) t) \<and> val (Math_pow E (1 + r) t) = 0))"
  then have "\<not> isFinite (S ! t / Math_pow E (1 + r) t)" by (intro term_nonfinite) simp
  then show "\<not> isFinite (discountedCashflows E r S ! t)"
    using h by (simp add: nth_discountedCashflows)
  show "\<not> isFinite (npv E r S)" using h by (intro npv_nonfinite[of t]) simp_all
next
  fix t
  assume "t < length S \<and> \<not> isFinite (S ! t)"
  then show "irr E S = NaN" using irr_nonfinite_element[of t S] by simp
next
  assume "S \<noteq> [] \<and> S ! 0 = NaN"
  then show "paybackPeriod S = NaN" using paybackPeriod_NaN by simp
qed

theorem engine_returns_and_propagates_witness:
  "length [Num 100, Num 40] \<le> capacity reference_engine
   \<and> run_npv reference_engine (Num (- 1)) [Num 100, Num 40] = Some PosInf
   \<and> run_discountedCashflows reference_engine (Num (- 1)) [Num 100, Num 40]
       = Some [Num 100, PosInf]
   \<and> run_irr reference_engine [Num 100, Num 40] = Some NaN
   \<and> run_paybackPeriod [Num 100, Num 40] = Some (Num 0)
   \<and> 0 < capacity reference_engine
   \<and> \<not> Num (of_nat (capacity reference_engine)) \<le> Num 25
   \<and> (\<exists>cfs. buildCashflows reference_engine \<lparr>capGeo = Num 4314, capInd = Num 2331,
          capPv = Num 0, benefitTax = Num 4818, benefitEnergy = Num 337, years = Num 25\<rparr>
        = Inr cfs)
   \<and> Num (of_nat (capacity reference_engine)) \<le> Num 5000000000
   \<and> buildCashflows reference_engine \<lparr>capGeo = Num 4314, capInd = Num 2331,
          capPv = Num 0, benefitTax = Num 4818, benefitEnergy = Num 337,
          years = Num 5000000000\<rparr> = Inl RangeError
   \<and> isFinite (Math_pow reference_engine (1 + Num (- 1)) 1)
   \<and> val (Math_pow reference_engine (1 + Num (- 1)) 1) = 0
   \<and> \<not> isFinite (discountedCashflows reference_engine (Num (- 1)) [Num 100, Num 40] ! 1)
   \<and> \<not> isFinite (npv reference_engine (Num (- 1)) [Num 100, Num 40])
   \<and> \<not> isFinite ([Num 100, PosInf] ! 1) \<and> irr reference_engine [Num 100, PosInf] = NaN
   \<and> [NaN, Num 40] \<noteq> [] \<and> [NaN, Num 40] ! 0 = NaN \<and> paybackPeriod [NaN, Num 40] = NaN"
proof -
  let ?p = "\<lparr>capGeo = Num 4314, capInd = Num 2331, capPv = Num 0,
        benefitTax = Num 4818, benefitEnergy = Num 337, years = Num 25\<rparr>"
  let ?q = "\<lparr>capGeo = Num 4314, capInd = Num 2331, capPv = Num 0,
        benefitTax = Num 4818, benefitEnergy = Num 337, years = Num 5000000000\<rparr>"
  note e1 = engine_returns_and_propagates
    [where S = "[Num 100, Num 40]" and r = "Num (- 1)" and E = reference_engine and p = ?p]
  note e2 = engine_returns_and_propagates
    [where S = "[Num 100, PosInf]" and r = "Num (- 1)" and E = reference_engine and p = ?q]
  note e3 = engine_returns_and_propagates
    [where S = "[NaN, Num 40]" and r = "Num (- 1)" and E = reference_engine and p = ?q]
  have z: "isFinite (Math_pow reference_engine (1 + Num (- 1)) 1)
      \<and> val (Math_pow reference_engine (1 + Num (- 1)) 1) = 0"
    by (simp add: one_jsnum_def)
  have v: "npv reference_engine (Num (- 1)) [Num 100, Num 40] = PosInf"
    by (simp add: npv_pair js_eval cong: let_weak_cong)
  have d: "discountedCashflows reference_engine (Num (- 1)) [Num 100, Num 40]
      = [Num 100, PosInf]"
    by (simp add: discountedCashflows_def upt_rec js_eval cong: let_weak_cong)
  have i: "irr reference_engine [Num 100, Num 40] = NaN"
    by (simp add: irr_def irr_ret_def npv_pair js_eval cong: let_weak_cong)
  have b: "paybackPeriod [Num 100, Num 40] = Num 0"
    by (simp add: paybackPeriod_def zero_jsnum_def)
  have r: "run_npv reference_engine (Num (- 1)) [Num 100, Num 40] = Some PosInf
      \<and> run_discountedCashflows reference_engine (Num (- 1)) [Num 100, Num 40]
          = Some [Num 100, PosInf]
      \<and> run_irr reference_engine [Num 100, Num 40] = Some NaN
      \<and> run_paybackPeriod [Num 100, Num 40] = Some (Num 0)"
    using e1 v d i b by simp
  have c: "\<exists>cfs. buildCashflows reference_engine ?p = Inr cfs"
    using e1 by simp
  have f: "buildCashflows reference_engine ?q = Inl RangeError"
    using e2 by simp
  from e1 have "(1::nat) < length [Num 100, Num 40] \<and>
          (\<not> isFinite ([Num 100, Num 40] ! 1) \<or>
           (isFinite (Math_pow reference_engine (1 + Num (- 1)) 1)
            \<and> val (Math_pow reference_engine (1 + Num (- 1)) 1) = 0))
        \<longrightarrow> \<not> isFinite (discountedCashflows reference_engine (Num (- 1)) [Num 100, Num 40] ! 1)
          \<and> \<not> isFinite (npv reference_engine (Num (- 1)) [Num 100, Num 40])"
    by blast
  then have n: "\<not> isFinite (discountedCashflows reference_engine (Num (- 1)) [Num 100, Num 40] ! 1)
      \<and> \<not> isFinite (npv reference_engine (Num (- 1)) [Num 100, Num 40])"
    using z by simp
  from e2 have "(1::nat) < length [Num 100, PosInf] \<and> \<not> isFinite ([Num 100, PosInf] ! 1)
      \<longrightarrow> irr reference_engine [Num 100, PosInf] = NaN"
    by blast
  then have g: "irr reference_engine [Num 100, PosInf] = NaN" by simp
  have h: "paybackPeriod [NaN, Num 40] = NaN" using e3 by simp
  show ?thesis using r c f n g h z by simp
qed


section \<open>Series without a negative element\<close>

lemma term_nonneg:
  assumes "0 < y" "0 \<le> x"
  shows "nonneg_or_nan (x / Math_pow E (Num y) t)"
proof -
  consider (inf) "Math_pow E (Num y) t = PosInf" | (num) r where "Math_pow E (Num y) t = Num r" "0 \<le> r"
    using Math_pow_positive[OF assms(1)] by blast
  then show ?thesis
  proof cases
    case inf
    then show ?thesis using assms(2)
      by (cases x) (simp_all add: divide_jsnum_def zero_of_def inf_of_def nonneg_or_nan_def zero_jsnum_def)
  next
    case num
    show ?thesis
    proof (cases x)
      case (Num a)
      then have a: "0 \<le> a" using assms(2) by (simp add: zero_jsnum_def)
      show ?thesis
      proof (cases "a = 0 \<or> r = 0")
        case True
        then show ?thesis using a num
          by (auto simp add: Num divide_jsnum_def zero_of_def inf_of_def nonneg_or_nan_def)
      next
        case False
        then have "0 < a / r" using a num by simp
        then show ?thesis using False rnd_pos_cases[of "a / r"] rnd_mag_nonneg[of "a / r"]
          by (auto simp add: Num num divide_jsnum_def nonneg_or_nan_def)
      qed
    qed (use assms(2) num in \<open>simp_all add: divide_jsnum_def zero_of_def inf_of_def nonneg_or_nan_def zero_jsnum_def\<close>)
  qed
qed

lemma not_below_plus:
  assumes "not_below c s" "nonneg_or_nan v" "rnd c = Num c" "0 < c"
  shows "not_below c (s + v)"
proof (cases "\<exists>a b. s = Num a \<and> (v = Num b \<or> (v = NegZero \<and> b = 0))")
  case True
  then obtain a b where s: "s = Num a" and v: "v = Num b \<or> (v = NegZero \<and> b = 0)" by blast
  have a: "c \<le> a" using assms(1) s by (simp add: not_below_def)
  have b: "0 \<le> b" using assms(2) v by (auto simp add: nonneg_or_nan_def)
  have sum: "s + v = rnd (a + b)" using s v by auto
  have "rnd c \<le> rnd (a + b)" using a b by (intro rnd_mono) simp
  then have "Num c \<le> rnd (a + b)" by (simp add: assms(3))
  then show ?thesis unfolding sum using assms(4) by (cases "rnd (a + b)") (simp_all add: not_below_def)
next
  case False
  then show ?thesis using assms(1,2)
    by (cases s; cases v) (simp_all add: not_below_def nonneg_or_nan_def)
qed

lemma npv_loop_not_below:
  assumes "\<forall>x\<in>set S. 0 \<le> x" "1 + rate = Num y" "0 < y" "rnd c = Num c" "0 < c" "not_below c s"
  shows "not_below c (npv_loop E rate S t s)"
  using assms(6)
proof (induction "length S - t" arbitrary: t s)
  case 0
  then show ?case by (subst npv_loop.simps) simp
next
  case (Suc n)
  then have lt: "t < length S" by simp
  have "0 \<le> S ! t" using assms(1) lt by simp
  then have "nonneg_or_nan (S ! t / Math_pow E (Num y) t)" using assms(3) by (intro term_nonneg)
  then have "not_below c (s + S ! t / Math_pow E (1 + rate) t)"
    using Suc(3) assms(2,4,5) by (simp add: not_below_plus)
  then have "not_below c (npv_loop E rate S (t + 1) (s + S ! t / Math_pow E (1 + rate) t))"
    using Suc(1)[of "t + 1"] Suc(2) by simp
  then show ?case using lt by (subst npv_loop.simps) simp
qed

lemma nonneg_plus:
  assumes "nonneg_or_nan s" "nonneg_or_nan v"
  shows "nonneg_or_nan (s + v)"
proof (cases "\<exists>a b. (s = Num a \<or> (s = NegZero \<and> a = 0)) \<and> (v = Num b \<or> (v = NegZero \<and> b = 0))
    \<and> \<not> (s = NegZero \<and> v = NegZero)")
  case True
  then obtain a b where s: "s = Num a \<or> (s = NegZero \<and> a = 0)"
    and v: "v = Num b \<or> (v = NegZero \<and> b = 0)" and n: "\<not> (s = NegZero \<and> v = NegZero)" by blast
  have a: "0 \<le> a" using assms(1) s by (auto simp add: nonneg_or_nan_def)
  have b: "0 \<le> b" using assms(2) v by (auto simp add: nonneg_or_nan_def)
  have sum: "s + v = rnd (a + b)" using s v n by auto
  have "rnd 0 \<le> rnd (a + b)" using a b by (intro rnd_mono) simp
  then show ?thesis unfolding sum by (cases "rnd (a + b)") (simp_all add: nonneg_or_nan_def)
next
  case False
  then show ?thesis using assms
    by (cases s; cases v) (simp_all add: nonneg_or_nan_def)
qed

lemma not_below_first:
  assumes "nonneg_or_nan s" "v = PosInf \<or> v = Num c" "rnd c = Num c" "0 < c"
  shows "not_below c (s + v)"
proof (cases "v = Num c \<and> (\<exists>a. s = Num a \<or> (s = NegZero \<and> a = 0))")
  case True
  then obtain a where s: "s = Num a \<or> (s = NegZero \<and> a = 0)" and v: "v = Num c" by blast
  have a: "0 \<le> a" using assms(1) s by (auto simp add: nonneg_or_nan_def)
  have sum: "s + v = rnd (a + c)" using s v by auto
  have "rnd c \<le> rnd (a + c)" using a by (intro rnd_mono) simp
  then have "Num c \<le> rnd (a + c)" by (simp add: assms(3))
  then show ?thesis unfolding sum using assms(4)
    by (cases "rnd (a + c)") (simp_all add: not_below_def)
next
  case False
  then show ?thesis using assms(1,2)
    by (cases s; cases v) (simp_all add: not_below_def nonneg_or_nan_def)
qed

text \<open>
  The net present value of a series without a negative element, at a rate above \<open>-1\<close>,
  is not below the discounted value of any one of its elements.
\<close>

lemma npv_loop_prefix:
  assumes "\<forall>x\<in>set S. 0 \<le> x" "1 + rate = Num y" "0 < y" "k < length S"
    "S ! k / Math_pow E (1 + rate) k = PosInf \<or> S ! k / Math_pow E (1 + rate) k = Num c"
    "rnd c = Num c" "0 < c" "t \<le> k" "nonneg_or_nan s"
  shows "not_below c (npv_loop E rate S t s)"
  using assms(8,9)
proof (induction "k - t" arbitrary: t s)
  case 0
  then have t: "t = k" by simp
  have "not_below c (s + S ! k / Math_pow E (1 + rate) k)"
    using 0(3) assms(5,6,7) by (rule not_below_first)
  then have "not_below c (npv_loop E rate S (k + 1) (s + S ! k / Math_pow E (1 + rate) k))"
    by (rule npv_loop_not_below[OF assms(1,2,3,6,7)])
  then show ?case using assms(4) unfolding t by (subst npv_loop.simps) simp
next
  case (Suc n)
  then have lt: "t < length S" "t + 1 \<le> k" using assms(4) by simp_all
  have "0 \<le> S ! t" using assms(1) lt by simp
  then have "nonneg_or_nan (S ! t / Math_pow E (Num y) t)" using assms(3) by (intro term_nonneg)
  then have "nonneg_or_nan (s + S ! t / Math_pow E (1 + rate) t)"
    using Suc(4) assms(2) by (simp add: nonneg_plus)
  then have "not_below c (npv_loop E rate S (t + 1) (s + S ! t / Math_pow E (1 + rate) t))"
    using Suc(1)[of "t + 1"] Suc(2) lt by simp
  then show ?case using lt by (subst npv_loop.simps) simp
qed

lemma npv_not_below:
  assumes "\<forall>x\<in>set S. 0 \<le> x" "1 + rate = Num y" "0 < y" "k < length S"
    "S ! k / Math_pow E (1 + rate) k = PosInf \<or> S ! k / Math_pow E (1 + rate) k = Num c"
    "rnd c = Num c" "0 < c"
  shows "not_below c (npv E rate S)"
  unfolding npv_def using assms
  by (rule npv_loop_prefix) (simp_all add: nonneg_or_nan_def zero_jsnum_def)

lemma zero_less_le_trans: "(0::jsnum) < x \<Longrightarrow> x \<le> y \<Longrightarrow> 0 < y"
  by (cases x; cases y) (simp_all add: zero_jsnum_def)

lemma product_positive:
  assumes "not_below a x" "not_below b y" "isFinite x" "isFinite y" "0 < a" "0 < b"
    "0 < rnd (a * b)"
  shows "0 < x * y \<and> \<not> strict_eq x 0 \<and> \<not> strict_eq y 0"
proof -
  obtain a' where x: "x = Num a'" and a: "a \<le> a'"
    using assms(1,3) by (cases x) (simp_all add: not_below_def)
  obtain b' where y: "y = Num b'" and b: "b \<le> b'"
    using assms(2,4) by (cases y) (simp_all add: not_below_def)
  have pos: "0 < a'" "0 < b'" using a b assms(5,6) by simp_all
  have "a * b \<le> a' * b'" using a b assms(5,6) by (intro mult_mono) simp_all
  then have "rnd (a * b) \<le> rnd (a' * b')" by (rule rnd_mono)
  with assms(7) have "0 < rnd (a' * b')" by (rule zero_less_le_trans)
  then show ?thesis using pos by (simp add: x y times_jsnum_def zero_jsnum_def)
qed

text \<open>
  Two numbers that are zero, positive, \<open>+\<infinity>\<close> or NaN and have a positive product are
  positive or \<open>+\<infinity>\<close>.
\<close>

lemma positive_product_cases:
  assumes "0 < x * y" "nonneg_or_nan x" "nonneg_or_nan y" "is_double x" "is_double y"
  obtains "x = PosInf \<or> y = PosInf"
  | a b where "x = Num a" "y = Num b" "0 < a" "0 < b" "rnd a = Num a" "rnd b = Num b"
      "0 < rnd (a * b)"
proof (cases "x = PosInf \<or> y = PosInf")
  case True
  then show ?thesis by (rule that(1))
next
  case False
  then obtain a b where x: "x = Num a" and y: "y = Num b" and ab: "a \<noteq> 0" "b \<noteq> 0"
    using assms(1,2,3)
    by (cases x; cases y)
      (auto simp add: times_jsnum_def zero_of_def inf_of_def zero_jsnum_def nonneg_or_nan_def
        split: if_splits)
  have pos: "0 < a" "0 < b" using assms(2,3) ab by (simp_all add: x y nonneg_or_nan_def)
  have "0 < rnd (a * b)" using assms(1) ab by (simp add: x y times_jsnum_def)
  then show ?thesis using that(2)[OF x y pos] assms(4,5) by (simp add: x y)
qed

lemma one_plus_lo: "1 + - rnd (9999 / 10000) = Num (450359962737 / 4503599627370496)"
  by (simp add: rnd_eval one_jsnum_def)

lemma one_plus_10: "1 + Num 10 = Num 11"
  by (simp add: rnd_eval one_jsnum_def)

lemma one_plus_50: "1 + Num 50 = Num 51"
  by (simp add: rnd_eval one_jsnum_def)

text \<open>
  The bracket search on a series without a negative element, one of whose elements has
  discounted values \<open>d\<^sub>l\<close>, \<open>d\<^sub>1\<^sub>0\<close> and \<open>d\<^sub>5\<^sub>0\<close> at the rates \<open>-0.9999\<close>, 10 and 50 with positive
  products \<open>d\<^sub>l \<cdot> d\<^sub>1\<^sub>0\<close> and \<open>d\<^sub>l \<cdot> d\<^sub>5\<^sub>0\<close>.
\<close>

lemma irr_no_sign_change:
  assumes "\<forall>x\<in>set S. 0 \<le> x \<and> is_double x" and "k < length S"
    and "0 < (S ! k / Math_pow E (1 + - rnd (9999 / 10000)) k)
           * (S ! k / Math_pow E (1 + Num 10) k)"
    and "0 < (S ! k / Math_pow E (1 + - rnd (9999 / 10000)) k)
           * (S ! k / Math_pow E (1 + Num 50) k)"
  shows "irr E S = NaN"
proof -
  let ?f = "\<lambda>r. npv E r S"
  let ?lo = "- rnd (9999 / 10000)"
  let ?d = "\<lambda>r. S ! k / Math_pow E (1 + r) k"
  have nn: "\<forall>x\<in>set S. 0 \<le> x" using assms(1) by simp
  have sk: "0 \<le> S ! k" using assms(1,2) by simp
  have n: "nonneg_or_nan (?d ?lo)" "nonneg_or_nan (?d (Num 10))" "nonneg_or_nan (?d (Num 50))"
    unfolding one_plus_lo one_plus_10 one_plus_50 using sk by (simp_all add: term_nonneg)
  have below: "not_below c (?f r)"
    if "1 + r = Num y" "0 < y" "?d r = Num c" "rnd c = Num c" "0 < c" for r y c
    using nn that(1,2) assms(2) _ that(4,5) by (rule npv_not_below) (simp add: that(3))
  have inf: "\<not> isFinite (?f r)" if "1 + r = Num y" "0 < y" "?d r = PosInf" for r y
  proof -
    have "S ! k / Math_pow E (1 + r) k = PosInf" by (rule that(3))
    then have "\<not> isFinite (S ! k / Math_pow E (1 + r) k)" by simp
    then show ?thesis
      unfolding npv_def using assms(2) by (intro npv_loop_nonfinite_term[of k]) simp_all
  qed
  have p1: "\<not> isFinite (?f ?lo) \<or> \<not> isFinite (?f (Num 10))
      \<or> (0 < ?f ?lo * ?f (Num 10) \<and> \<not> strict_eq (?f ?lo) 0 \<and> \<not> strict_eq (?f (Num 10)) 0)"
    using assms(3) n(1,2) is_double_divide is_double_divide
  proof (cases rule: positive_product_cases)
    case 1
    then show ?thesis using inf[OF one_plus_lo] inf[OF one_plus_10] by auto
  next
    case (2 a b)
    have "not_below a (?f ?lo)" using one_plus_lo _ 2(1,5,3) by (rule below) simp
    moreover have "not_below b (?f (Num 10))" using one_plus_10 _ 2(2,6,4) by (rule below) simp
    ultimately show ?thesis using product_positive[OF _ _ _ _ 2(3,4,7)] by blast
  qed
  have p2: "\<not> isFinite (?f ?lo) \<or> \<not> isFinite (?f (Num 50)) \<or> 0 < ?f ?lo * ?f (Num 50)"
    using assms(4) n(1,3) is_double_divide is_double_divide
  proof (cases rule: positive_product_cases)
    case 1
    then show ?thesis using inf[OF one_plus_lo] inf[OF one_plus_50] by auto
  next
    case (2 a b)
    have "not_below a (?f ?lo)" using one_plus_lo _ 2(1,5,3) by (rule below) simp
    moreover have "not_below b (?f (Num 50))" using one_plus_50 _ 2(2,6,4) by (rule below) simp
    ultimately show ?thesis using product_positive[OF _ _ _ _ 2(3,4,7)] by blast
  qed
  have "irr_ret E S = Return_NaN"
    using p1 p2 by (auto simp add: irr_ret_def Let_def)
  then show ?thesis by (simp add: irr_def)
qed

text \<open>
  Claim C3, as stated: \<^verbatim>\<open>irr\<close> returns NaN for every series whose elements are all \<open>\<ge> 0\<close>.
  It fails.  For the series \<open>[0]\<close> the net present value at \<open>lo = -0.9999\<close> is exactly zero
  and \<^verbatim>\<open>if (flo === 0) return lo\<close> returns the number \<open>-0.9999\<close>.  For the series
  \<open>[2\<^sup>-\<^sup>6\<^sup>0\<^sup>0]\<close> the product \<open>f(lo) \<cdot> f(hi) = 2\<^sup>-\<^sup>1\<^sup>2\<^sup>0\<^sup>0\<close> underflows to zero, the test
  \<^verbatim>\<open>flo * fhi > 0\<close> is false, and the first midpoint \<open>4.50005\<close> is returned as converged.
\<close>

theorem irr_nonnegative_counterexample:
  "0 \<le> Num 0
   \<and> (\<forall>E. irr E [Num 0] = Num (- (4503149267407759 / 4503599627370496)))
   \<and> 0 \<le> Num (1 / 2 ^ 600)
   \<and> (\<forall>E. irr E [Num (1 / 2 ^ 600)] = Num (2533302937893575 / 562949953421312))"
proof -
  have a: "irr E [Num 0] = Num (- (4503149267407759 / 4503599627370496))" for E
    by (simp add: irr_def irr_ret_def npv_single js_eval cong: let_weak_cong)
  have b: "irr E [Num (1 / 2 ^ 600)] = Num (2533302937893575 / 562949953421312)" for E
    by (simp add: irr_def irr_ret_def irr_loop.simps npv_single js_eval
        cong: let_weak_cong)
  show ?thesis using a b by (simp add: zero_jsnum_def)
qed

text \<open>
  Claim C3, amended.  For every series of binary64 numbers whose elements are all \<open>\<ge> 0\<close>
  and one of whose elements, \<open>S[k]\<close>, is large enough for the products of its discounted
  values \<^verbatim>\<open>S[k] / Math.pow(1 + r, k)\<close> at the rates \<open>-0.9999\<close> and 10, and at the rates
  \<open>-0.9999\<close> and 50, not to underflow to zero, \<^verbatim>\<open>irr\<close> returns NaN: the net present value
  at each of the three rates is then at least the discounted value of that element, or
  is not finite, so no sign change is found.  For \<open>k = 0\<close> the discounted values are
  \<open>S[0]\<close> itself, and \<^verbatim>\<open>S[0] * S[0] > 0\<close> is enough (every \<open>S[0] \<ge> 10\<^sup>-\<^sup>1\<^sup>6\<^sup>1\<close> has it).
\<close>

theorem irr_fails_on_nonnegative:
  assumes "\<forall>x\<in>set S. 0 \<le> x \<and> is_double x"
  shows "(k < length S
          \<and> 0 < (S ! k / Math_pow E (1 + - rnd (9999 / 10000)) k)
                 * (S ! k / Math_pow E (1 + Num 10) k)
          \<and> 0 < (S ! k / Math_pow E (1 + - rnd (9999 / 10000)) k)
                 * (S ! k / Math_pow E (1 + Num 50) k)
          \<longrightarrow> irr E S = NaN)
       \<and> (S \<noteq> [] \<and> 0 < S ! 0 * S ! 0 \<longrightarrow> irr E S = NaN)"
proof (intro conjI impI)
  assume "k < length S
          \<and> 0 < (S ! k / Math_pow E (1 + - rnd (9999 / 10000)) k)
                 * (S ! k / Math_pow E (1 + Num 10) k)
          \<and> 0 < (S ! k / Math_pow E (1 + - rnd (9999 / 10000)) k)
                 * (S ! k / Math_pow E (1 + Num 50) k)"
  then show "irr E S = NaN" using irr_no_sign_change[OF assms, of k E] by simp
next
  assume h: "S \<noteq> [] \<and> 0 < S ! 0 * S ! 0"
  then have "is_double (S ! 0)" using assms by simp
  then have "S ! 0 / Math_pow E (1 + r) 0 = S ! 0" for r by (simp add: divide_by_1)
  then show "irr E S = NaN" using h irr_no_sign_change[OF assms, of 0 E] by simp
qed

theorem irr_fails_on_nonnegative_witness:
  "0 \<le> Num 0 \<and> 0 \<le> Num 100 \<and> is_double (Num 0) \<and> is_double (Num 100)
   \<and> (1::nat) < length [Num 0, Num 100]
   \<and> (\<forall>E. 0 < ([Num 0, Num 100] ! 1 / Math_pow E (1 + - rnd (9999 / 10000)) 1)
               * ([Num 0, Num 100] ! 1 / Math_pow E (1 + Num 10) 1)
         \<and> 0 < ([Num 0, Num 100] ! 1 / Math_pow E (1 + - rnd (9999 / 10000)) 1)
               * ([Num 0, Num 100] ! 1 / Math_pow E (1 + Num 50) 1)
         \<and> irr E [Num 0, Num 100] = NaN)
   \<and> 0 \<le> Num 50 \<and> is_double (Num 50)
   \<and> [Num 100, Num 50, Num 50] \<noteq> []
   \<and> 0 < [Num 100, Num 50, Num 50] ! 0 * [Num 100, Num 50, Num 50] ! 0
   \<and> (\<forall>E. irr E [Num 100, Num 50, Num 50] = NaN)"
proof -
  have d: "0 \<le> Num 0" "0 \<le> Num 100" "0 \<le> Num 50"
    "is_double (Num 0)" "is_double (Num 100)" "is_double (Num 50)"
    by (simp_all add: rnd_eval zero_jsnum_def)
  then have h1: "\<forall>x\<in>set [Num 0, Num 100]. 0 \<le> x \<and> is_double x"
    and h2: "\<forall>x\<in>set [Num 100, Num 50, Num 50]. 0 \<le> x \<and> is_double x" by simp_all
  have e: "Math_pow E (1 + x) 1 = 1 + x" for E x by simp
  have p: "0 < ([Num 0, Num 100] ! 1 / Math_pow E (1 + - rnd (9999 / 10000)) 1)
               * ([Num 0, Num 100] ! 1 / Math_pow E (1 + Num 10) 1)
         \<and> 0 < ([Num 0, Num 100] ! 1 / Math_pow E (1 + - rnd (9999 / 10000)) 1)
               * ([Num 0, Num 100] ! 1 / Math_pow E (1 + Num 50) 1)" for E
    unfolding e by (simp add: js_eval cong: let_weak_cong)
  have q: "0 < [Num 100, Num 50, Num 50] ! 0 * [Num 100, Num 50, Num 50] ! 0"
    by (simp add: js_eval)
  have a: "irr E [Num 0, Num 100] = NaN" for E
    using p[of E] irr_fails_on_nonnegative [OF h1, of 1 E] by simp
  have b: "irr E [Num 100, Num 50, Num 50] = NaN" for E
    using q irr_fails_on_nonnegative [OF h2, of 0 E] by simp
  show ?thesis using d p q a b by simp
qed


section \<open>The round trip through the root finder\<close>











subsection \<open>The error of one rounding\<close>









subsection \<open>The error of the midpoint\<close>



subsection \<open>The net present value of two periods\<close>










subsection \<open>Across a narrow bracket\<close>





subsection \<open>The bisection on two periods\<close>





subsection \<open>Every return of the root finder\<close>









end
